theory Spec2Isabelle
  imports Main "HOL-Library.Word"
begin

unbundle bit_operations_syntax

section \<open>Bytes, sizes and exceptions\<close>

text \<open>
  \<open>ByteVector\<close> and \<open>ByteView\<close> are sequences of bytes; a \<open>size_t\<close> is read as a natural
  number and a \<open>uint32_t\<close> as a 32-bit word, whose arithmetic wraps around.
\<close>

type_synonym byte = "8 word"
type_synonym ByteVector = "byte list"
type_synonym uint32_t = "32 word"

text \<open>
  What a collaborator (the device, the QoS buffer) can throw, as the \<open>catch\<close> clauses of
  \<open>DeviceBridge.cpp\<close> tell it apart: an exception derived from \<open>std::exception\<close>, with its
  \<open>what()\<close> text, or anything else.
\<close>

datatype thrown = std_exception string | unknown_exception

text \<open>The reply of a collaborator to one call: it returns a value or throws.\<close>

datatype 'a reply = Returns 'a | Throws thrown

text \<open>
  What a call of the bridge can end with instead of returning. \<open>runtime_error\<close> is the
  \<open>std::runtime_error\<close> thrown by \<open>OnPassNetworkPacket\<close> (with its \<open>what()\<close> text),
  \<open>DecodeFailure\<close> the failure of \<open>ByteView::Read\<close>, \<open>passed_on\<close> an exception of a
  collaborator that the bridge does not catch, and \<open>undefined_behaviour\<close> stands for the
  two places where C++ gives the program no meaning: a call through a null device handle
  and \<open>remove_prefix\<close> beyond the end of the view.
\<close>

datatype error =
    runtime_error string
  | DecodeFailure
  | passed_on thrown
  | undefined_behaviour

section \<open>The chunk header\<close>

text \<open>
  Modelled from the spec: \<open>QualityOfService::s_HeaderSize\<close> is declared outside
  \<open>DeviceBridge.cpp\<close>; the specification gives it as 12, the size of three \<open>uint32_t\<close> fields.
\<close>

definition s_HeaderSize :: nat where
  "s_HeaderSize = 12"

text \<open>
  Modelled from the spec: \<open>ByteVector::Write\<close> for a \<open>uint32_t\<close> is declared outside
  \<open>DeviceBridge.cpp\<close>; it appends the four bytes of the value, here least significant
  byte first. \<open>Read_u32\<close> reads them back.
\<close>

definition Write_u32 :: "uint32_t \<Rightarrow> ByteVector" where
  "Write_u32 w = [ucast w, ucast (drop_bit 8 w), ucast (drop_bit 16 w), ucast (drop_bit 24 w)]"

definition Read_u32 :: "ByteVector \<Rightarrow> uint32_t" where
  "Read_u32 bs =
     (ucast (bs ! 0)) OR push_bit 8 (ucast (bs ! 1)) OR
     push_bit 16 (ucast (bs ! 2)) OR push_bit 24 (ucast (bs ! 3))"

text \<open>\<open>ByteVector{}.Write(messageId, chunkId, oryginalSize)\<close>: the three fields in this order.\<close>

definition Write_header :: "uint32_t \<Rightarrow> uint32_t \<Rightarrow> uint32_t \<Rightarrow> ByteVector" where
  "Write_header messageId chunkId oryginalSize =
     Write_u32 messageId @ Write_u32 chunkId @ Write_u32 oryginalSize"

text \<open>The three fields of a frame, read back from its first twelve bytes.\<close>

definition frame_message_id :: "ByteVector \<Rightarrow> uint32_t" where
  "frame_message_id f = Read_u32 (take 4 f)"

definition frame_chunk_id :: "ByteVector \<Rightarrow> uint32_t" where
  "frame_chunk_id f = Read_u32 (take 4 (drop 4 f))"

definition frame_original_size :: "ByteVector \<Rightarrow> uint32_t" where
  "frame_original_size f = Read_u32 (take 4 (drop 8 f))"

section \<open>The collaborators\<close>

text \<open>
  A device is a state of type \<open>'d\<close> together with its virtual methods. The bridge only
  ever sees the replies, so a method is a function from the device's state (and the
  argument) to the reply and the next state.
\<close>

record 'd Device =
  OnSendToChannelInternal :: "'d \<Rightarrow> ByteVector \<Rightarrow> nat reply \<times> 'd"
  OnReceive :: "'d \<Rightarrow> unit reply \<times> 'd"
  GetUpdateDelay :: "'d \<Rightarrow> nat reply \<times> 'd"
  IsChannel :: "'d \<Rightarrow> bool"

text \<open>
  Modelled from the spec: \<open>QualityOfService\<close> is declared outside
  \<open>DeviceBridge.cpp\<close>. It holds the outbound message-id counter, a \<open>uint32_t\<close> that
  \<open>GetOutgouingPacketId\<close> hands out and advances, and the reassembly buffer, whose
  content is left open (type \<open>'r\<close>).
\<close>

record 'r QualityOfService =
  m_OutgouingPacketId :: uint32_t
  m_ReciveQueue :: 'r

definition GetOutgouingPacketId :: "'r QualityOfService \<Rightarrow> uint32_t \<times> 'r QualityOfService" where
  "GetOutgouingPacketId q = (m_OutgouingPacketId q, q\<lparr>m_OutgouingPacketId := m_OutgouingPacketId q + 1\<rparr>)"

text \<open>
  The reassembly operations of \<open>QualityOfService\<close> are parameters: each returns its
  reply and the next state of the buffer. \<open>GetNextPacket\<close> returns a packet, empty when
  none is ready.
\<close>

record 'r QoS_ops =
  PushReceivedChunk :: "'r QualityOfService \<Rightarrow> ByteVector \<Rightarrow> unit reply \<times> 'r QualityOfService"
  GetNextPacket :: "'r QualityOfService \<Rightarrow> ByteVector reply \<times> 'r QualityOfService"

section \<open>The bridge\<close>

text \<open>
  The members of \<open>DeviceBridge\<close>. The device handle may be null (\<open>IsChannel\<close> tests
  it), so \<open>m_Device\<close> is an option: \<open>None\<close> is the null handle, \<open>Some d\<close> a device in
  state \<open>d\<close>. The relay is not a member here: it is represented by the calls made to it.
\<close>

record ('d, 'r) DeviceBridge =
  m_Device :: "'d option"
  m_Did :: nat
  m_TypeNameHash :: nat
  m_IsNegotiationChannel :: bool
  m_IsSlave :: bool
  m_IsAlive :: bool
  m_InputId :: ByteVector
  m_OutpuId :: ByteVector
  m_NonNegotiatiedArguments :: ByteVector
  m_QoS :: "'r QualityOfService"
  m_Error :: string

section \<open>Sending: \<open>OnPassNetworkPacket\<close>\<close>

text \<open>\<open>std::to_string\<close> of an unsigned value: its decimal digits, without leading zeros.\<close>

definition digit_char :: "nat \<Rightarrow> char" where
  "digit_char d = ''0123456789'' ! d"

function to_string :: "nat \<Rightarrow> string" where
  "to_string n = (if n < 10 then [digit_char n] else to_string (n div 10) @ [digit_char (n mod 10)])"
  by pat_completeness auto
termination
  by (relation "measure id") auto

declare to_string.simps [simp del]

text \<open>The number that a string of decimal digits denotes.\<close>

definition decimal_value :: "string \<Rightarrow> nat" where
  "decimal_value s = foldl (\<lambda>a c. 10 * a + (of_char c - 48)) 0 s"

text \<open>
  How a send ends: it returned, it threw (or left defined behaviour), or the model's
  bound on the number of transport calls ran out while the loop was still running.
\<close>

datatype status = Finished | Raised error | Running

text \<open>One call of \<open>OnSendToChannelInternal\<close> as seen from outside: the bytes offered and the reply.\<close>

type_synonym call = "ByteVector \<times> nat reply"

text \<open>
  The \<open>while (!packet.empty())\<close> loop. \<open>fuel\<close> bounds the number of transport calls;
  the loop variables are \<open>chunkId\<close> and \<open>packet\<close>, the device handle is \<open>dev\<close>. The
  result is the status, the calls made in order, and the device afterwards.

  \<open>sent - s_HeaderSize\<close> is a \<open>size_t\<close> subtraction: below the header size it wraps to a
  value larger than any view, so in that case, as whenever the difference exceeds
  \<open>packet.size()\<close>, \<open>remove_prefix\<close> is undefined.
\<close>

fun send_loop ::
  "nat \<Rightarrow> 'd Device \<Rightarrow> nat \<Rightarrow> uint32_t \<Rightarrow> uint32_t \<Rightarrow> uint32_t \<Rightarrow> ByteVector \<Rightarrow> 'd option
     \<Rightarrow> status \<times> call list \<times> 'd option" where
  "send_loop fuel ops s_MinFrameSize messageId oryginalSize chunkId packet dev =
     (if packet = [] then (Finished, [], dev)
      else case fuel of
        0 \<Rightarrow> (Running, [], dev)
      | Suc fuel' \<Rightarrow>
        (case dev of
           None \<Rightarrow> (Raised undefined_behaviour, [], dev)
         | Some d \<Rightarrow>
           (let data = Write_header messageId chunkId oryginalSize @ packet in
            case OnSendToChannelInternal ops d data of
              (Throws e, d') \<Rightarrow> (Raised (passed_on e), [(data, Throws e)], Some d')
            | (Returns sent, d') \<Rightarrow>
                if sent \<ge> s_MinFrameSize \<or> sent = length data then
                  (if sent < s_HeaderSize \<or> length packet < sent - s_HeaderSize
                   then (Raised undefined_behaviour, [(data, Returns sent)], Some d')
                   else
                     (case send_loop fuel' ops s_MinFrameSize messageId oryginalSize (chunkId + 1)
                             (drop (sent - s_HeaderSize) packet) (Some d') of
                        (st, tr, dev') \<Rightarrow> (st, (data, Returns sent) # tr, dev')))
                else
                  (case send_loop fuel' ops s_MinFrameSize messageId oryginalSize chunkId
                          packet (Some d') of
                     (st, tr, dev') \<Rightarrow> (st, (data, Returns sent) # tr, dev')))))"

declare send_loop.simps [simp del]

text \<open>
  \<open>OnPassNetworkPacket\<close>. The mutex only serialises callers and is not modelled. The
  result is the status, the transport calls made, and the bridge afterwards (its device
  and its QoS may have changed).
\<close>

definition OnPassNetworkPacket ::
  "nat \<Rightarrow> 'd Device \<Rightarrow> nat \<Rightarrow> ('d, 'r) DeviceBridge \<Rightarrow> ByteVector
     \<Rightarrow> status \<times> call list \<times> ('d, 'r) DeviceBridge" where
  "OnPassNetworkPacket fuel ops s_MinFrameSize b packet =
     (if m_IsNegotiationChannel b then
        (case m_Device b of
           None \<Rightarrow> (Raised undefined_behaviour, [], b)
         | Some d \<Rightarrow>
           (case OnSendToChannelInternal ops d packet of
              (Throws e, d') \<Rightarrow> (Raised (passed_on e), [(packet, Throws e)], b\<lparr>m_Device := Some d'\<rparr>)
            | (Returns sent, d') \<Rightarrow>
                if sent \<noteq> length packet then
                  (Raised (runtime_error
                     (''Negotiation channel does not support chunking. Packet size: ''
                        @ to_string (length packet) @ '' Channel sent: '' @ to_string sent)),
                   [(packet, Returns sent)], b\<lparr>m_Device := Some d'\<rparr>)
                else (Finished, [(packet, Returns sent)], b\<lparr>m_Device := Some d'\<rparr>)))
      else
        (let oryginalSize = (of_nat (length packet) :: uint32_t);
             (messageId, qos') = GetOutgouingPacketId (m_QoS b);
             chunkId = (0 :: uint32_t)
         in case send_loop fuel ops s_MinFrameSize messageId oryginalSize chunkId packet (m_Device b) of
              (st, tr, dev') \<Rightarrow> (st, tr, b\<lparr>m_Device := dev', m_QoS := qos'\<rparr>)))"

text \<open>
  The test of the loop on one call: the chunk counts as accepted when the transport
  returned at least \<open>s_MinFrameSize\<close> or exactly the size of the frame offered.
\<close>

fun accepted :: "nat \<Rightarrow> call \<Rightarrow> bool" where
  "accepted s_MinFrameSize (data, Returns sent) = (sent \<ge> s_MinFrameSize \<or> sent = length data)"
| "accepted s_MinFrameSize (data, Throws e) = False"

text \<open>A call on which the transport made no progress: fewer bytes than the minimum and fewer than offered.\<close>

fun stalled :: "nat \<Rightarrow> call \<Rightarrow> bool" where
  "stalled s_MinFrameSize (data, Returns sent) = (sent < s_MinFrameSize \<and> sent < length data)"
| "stalled s_MinFrameSize (data, Throws e) = False"

text \<open>
  A transport reply within its contract for an accepted chunk: between the minimum frame
  size and the size offered, or exactly the size offered.
\<close>

fun well_accepted :: "nat \<Rightarrow> call \<Rightarrow> bool" where
  "well_accepted s_MinFrameSize (data, Returns sent) =
     (s_MinFrameSize \<le> sent \<and> sent \<le> length data \<or> sent = length data)"
| "well_accepted s_MinFrameSize (data, Throws e) = False"

text \<open>The bytes of the packet that one call transmitted: the part of the frame sent, without its header.\<close>

fun payload_slice :: "call \<Rightarrow> ByteVector" where
  "payload_slice (data, Returns sent) = drop s_HeaderSize (take sent data)"
| "payload_slice (data, Throws e) = []"

text \<open>
  Replaying recorded calls on the device: starting from the state \<open>d\<close>, each frame is
  offered to \<open>OnSendToChannelInternal\<close> in turn and the reply compared with the one
  recorded. The result is the state of the device after the last call, or \<open>None\<close> when
  some recorded reply is not the reply of the device.
\<close>

fun device_after :: "'d Device \<Rightarrow> 'd \<Rightarrow> call list \<Rightarrow> 'd option" where
  "device_after ops d [] = Some d"
| "device_after ops d ((frame, r) # tr) =
     (case OnSendToChannelInternal ops d frame of
        (r', d') \<Rightarrow> if r' = r then device_after ops d' tr else None)"

section \<open>Receiving: \<open>PassNetworkPacket\<close>\<close>

text \<open>
  The relay only receives calls from the bridge, so it is represented by the calls made
  to \<open>Relay::OnPacketReceived\<close>, in order, each with the packet passed. The result is the
  status, these calls, and the bridge afterwards.
\<close>

definition PassNetworkPacket ::
  "'r QoS_ops \<Rightarrow> ('d, 'r) DeviceBridge \<Rightarrow> ByteVector
     \<Rightarrow> status \<times> ByteVector list \<times> ('d, 'r) DeviceBridge" where
  "PassNetworkPacket qops b packet =
     (if m_IsNegotiationChannel b \<and> \<not> m_IsSlave b then (Finished, [packet], b)
      else
        (case PushReceivedChunk qops (m_QoS b) packet of
           (Throws e, q1) \<Rightarrow> (Raised (passed_on e), [], b\<lparr>m_QoS := q1\<rparr>)
         | (Returns u, q1) \<Rightarrow>
           (case GetNextPacket qops q1 of
              (Throws e, q2) \<Rightarrow> (Raised (passed_on e), [], b\<lparr>m_QoS := q2\<rparr>)
            | (Returns nextPacket, q2) \<Rightarrow>
                if nextPacket \<noteq> [] then (Finished, [nextPacket], b\<lparr>m_QoS := q2\<rparr>)
                else (Finished, [], b\<lparr>m_QoS := q2\<rparr>))))"

section \<open>Construction\<close>

text \<open>
  Modelled from the spec: \<open>ByteView::Read<ByteVector>\<close> is declared outside
  \<open>DeviceBridge.cpp\<close>. The specification calls it the standard length-prefix codec: a length,
  here a \<open>uint32_t\<close> written as the header fields are, followed by that many bytes. Reading
  returns the bytes and the rest of the view, and fails when the view is too short for
  the prefix or for the length it announces.
\<close>

definition Read_ByteVector :: "ByteVector \<Rightarrow> error + (ByteVector \<times> ByteVector)" where
  "Read_ByteVector view =
     (if length view < 4 then Inl DecodeFailure
      else
        (let n = unat (Read_u32 (take 4 view)); rest = drop 4 view
         in if length rest < n then Inl DecodeFailure else Inr (take n rest, drop n rest)))"

text \<open>The encoding that \<open>Read_ByteVector\<close> decodes: the length, then the bytes.\<close>

definition Write_ByteVector :: "ByteVector \<Rightarrow> ByteVector" where
  "Write_ByteVector v = Write_u32 (of_nat (length v)) @ v"

text \<open>
  The constructor. The vectors and the string it does not mention start empty;
  \<open>m_IsAlive\<close> starts true (its initialiser is in the class declaration, the value is the
  specification's). The QoS object is default-constructed; its initial state is the
  parameter \<open>qos\<close>.
\<close>

definition DeviceBridge_ctor ::
  "'d option \<Rightarrow> nat \<Rightarrow> nat \<Rightarrow> bool \<Rightarrow> bool \<Rightarrow> ByteVector \<Rightarrow> 'r QualityOfService
     \<Rightarrow> error + ('d, 'r) DeviceBridge" where
  "DeviceBridge_ctor device did typeNameHash isNegotiationChannel isSlave args qos =
     (let b = \<lparr>m_Device = device, m_Did = did, m_TypeNameHash = typeNameHash,
                m_IsNegotiationChannel = isNegotiationChannel, m_IsSlave = isSlave,
                m_IsAlive = True, m_InputId = [], m_OutpuId = [],
                m_NonNegotiatiedArguments = [], m_QoS = qos, m_Error = []\<rparr>
      in if \<not> isNegotiationChannel then Inr b
         else
           (case Read_ByteVector args of
              Inl e \<Rightarrow> Inl e
            | Inr (inputId, readView) \<Rightarrow>
              (case Read_ByteVector readView of
                 Inl e \<Rightarrow> Inl e
               | Inr (outputId, readView') \<Rightarrow>
                   Inr (b\<lparr>m_InputId := inputId, m_OutpuId := outputId,
                          m_NonNegotiatiedArguments := readView'\<rparr>))))"

section \<open>Accessors and \<open>Detach\<close>\<close>

definition Detach :: "('d, 'r) DeviceBridge \<Rightarrow> ('d, 'r) DeviceBridge" where
  "Detach b = b\<lparr>m_IsAlive := False\<rparr>"

definition DeviceBridge_IsChannel :: "'d Device \<Rightarrow> ('d, 'r) DeviceBridge \<Rightarrow> bool" where
  "DeviceBridge_IsChannel ops b = (case m_Device b of Some device \<Rightarrow> IsChannel ops device | None \<Rightarrow> False)"

definition IsNegotiationChannel :: "'d Device \<Rightarrow> ('d, 'r) DeviceBridge \<Rightarrow> bool" where
  "IsNegotiationChannel ops b = (m_IsNegotiationChannel b \<and> DeviceBridge_IsChannel ops b)"

section \<open>The receive worker: \<open>StartUpdatingInSeparateThread\<close>\<close>

text \<open>
  The worker thread runs \<open>while (m_IsAlive) try { sleep_for(GetUpdateDelay()); OnReceive(); }
  catch ...\<close> while other threads may call \<open>Detach\<close>. It is a machine with a program
  counter: at the loop test, asleep (with the delay obtained), inside \<open>OnReceive\<close>, or
  ended. A schedule interleaves the worker's steps with calls of \<open>Detach\<close>. What the
  worker does is recorded as events: a sleep that ended, a call of \<open>OnReceive\<close>, a message
  passed to \<open>Relay::Log\<close> with the device id. A call through a null device handle ends
  the thread in \<open>ThreadFaulted\<close>; hardware faults are not modelled.
\<close>

datatype Severity = Information | Warning | Error

datatype event = Slept nat | OnReceiveCalled | Logged string Severity nat

datatype pc = AtLoopTest | Sleeping nat | InOnReceive | ThreadExited | ThreadFaulted

record ('d, 'r) worker =
  bridge :: "('d, 'r) DeviceBridge"
  pc :: pc
  events :: "event list"

definition Log :: "('d, 'r) DeviceBridge \<Rightarrow> string \<Rightarrow> Severity \<Rightarrow> event" where
  "Log b message severity = Logged message severity (m_Did b)"

text \<open>The message the two \<open>catch\<close> clauses log for an exception.\<close>

fun caught_message :: "thrown \<Rightarrow> string" where
  "caught_message (std_exception what) = ''std::exception while updating: '' @ what"
| "caught_message unknown_exception = ''Unknown exception while updating.''"

definition StartUpdatingInSeparateThread :: "('d, 'r) DeviceBridge \<Rightarrow> ('d, 'r) worker" where
  "StartUpdatingInSeparateThread b = \<lparr>bridge = b, pc = AtLoopTest, events = []\<rparr>"

definition worker_step :: "'d Device \<Rightarrow> ('d, 'r) worker \<Rightarrow> ('d, 'r) worker" where
  "worker_step ops w =
     (case pc w of
        AtLoopTest \<Rightarrow>
          if m_IsAlive (bridge w) then
            (case m_Device (bridge w) of
               None \<Rightarrow> w\<lparr>pc := ThreadFaulted\<rparr>
             | Some d \<Rightarrow>
               (case GetUpdateDelay ops d of
                  (Returns delay, d') \<Rightarrow>
                    w\<lparr>bridge := (bridge w)\<lparr>m_Device := Some d'\<rparr>, pc := Sleeping delay\<rparr>
                | (Throws e, d') \<Rightarrow>
                    w\<lparr>bridge := (bridge w)\<lparr>m_Device := Some d'\<rparr>, pc := AtLoopTest,
                      events := events w @ [Log (bridge w) (caught_message e) Error]\<rparr>))
          else w\<lparr>pc := ThreadExited\<rparr>
      | Sleeping delay \<Rightarrow>
          w\<lparr>pc := InOnReceive, events := events w @ [Slept delay, OnReceiveCalled]\<rparr>
      | InOnReceive \<Rightarrow>
          (case m_Device (bridge w) of
             None \<Rightarrow> w\<lparr>pc := ThreadFaulted\<rparr>
           | Some d \<Rightarrow>
             (case OnReceive ops d of
                (Returns u, d') \<Rightarrow>
                  w\<lparr>bridge := (bridge w)\<lparr>m_Device := Some d'\<rparr>, pc := AtLoopTest\<rparr>
              | (Throws e, d') \<Rightarrow>
                  w\<lparr>bridge := (bridge w)\<lparr>m_Device := Some d'\<rparr>, pc := AtLoopTest,
                    events := events w @ [Log (bridge w) (caught_message e) Error]\<rparr>))
      | ThreadExited \<Rightarrow> w
      | ThreadFaulted \<Rightarrow> w)"

datatype action = WorkerStep | DetachCall

definition step :: "'d Device \<Rightarrow> action \<Rightarrow> ('d, 'r) worker \<Rightarrow> ('d, 'r) worker" where
  "step ops a w =
     (case a of WorkerStep \<Rightarrow> worker_step ops w | DetachCall \<Rightarrow> w\<lparr>bridge := Detach (bridge w)\<rparr>)"

fun run :: "'d Device \<Rightarrow> action list \<Rightarrow> ('d, 'r) worker \<Rightarrow> ('d, 'r) worker" where
  "run ops [] w = w"
| "run ops (a # sched) w = run ops sched (step ops a w)"

text \<open>The number of \<open>OnReceive\<close> calls among the events, and whether the thread has ended.\<close>

definition on_receive_calls :: "event list \<Rightarrow> nat" where
  "on_receive_calls es = count_list es OnReceiveCalled"

definition ended :: "pc \<Rightarrow> bool" where
  "ended p = (p = ThreadExited \<or> p = ThreadFaulted)"

text \<open>
  Two measures on the program counter of a worker whose bridge is detached: the calls
  of \<open>OnReceive\<close> it will still make (one when it sleeps, as the call follows the sleep
  without a test in between), and the steps it takes until it has ended.
\<close>

definition pending_calls :: "pc \<Rightarrow> nat" where
  "pending_calls p = (case p of Sleeping delay \<Rightarrow> 1 | _ \<Rightarrow> 0)"

definition steps_to_end :: "pc \<Rightarrow> nat" where
  "steps_to_end p =
     (case p of Sleeping delay \<Rightarrow> 3 | InOnReceive \<Rightarrow> 2 | AtLoopTest \<Rightarrow> 1
      | ThreadExited \<Rightarrow> 0 | ThreadFaulted \<Rightarrow> 0)"

section \<open>Concrete collaborators\<close>

text \<open>
  A device without state whose transport reply is a function of the frame offered and
  whose \<open>OnReceive\<close> always gives the same reply; its update delay is 5.
\<close>

definition test_device :: "(ByteVector \<Rightarrow> nat) \<Rightarrow> unit reply \<Rightarrow> unit Device" where
  "test_device sent_of received =
     \<lparr>OnSendToChannelInternal = (\<lambda>d frame. (Returns (sent_of frame), d)),
      OnReceive = (\<lambda>d. (received, d)),
      GetUpdateDelay = (\<lambda>d. (Returns 5, d)),
      IsChannel = (\<lambda>d. True)\<rparr>"

text \<open>A reassembly buffer that holds the payload of the last chunk pushed and returns it once.\<close>

definition test_qos :: "ByteVector QoS_ops" where
  "test_qos =
     \<lparr>PushReceivedChunk = (\<lambda>q chunk. (Returns (), q\<lparr>m_ReciveQueue := drop s_HeaderSize chunk\<rparr>)),
      GetNextPacket = (\<lambda>q. (Returns (m_ReciveQueue q), q\<lparr>m_ReciveQueue := []\<rparr>))\<rparr>"

definition test_bridge :: "bool \<Rightarrow> bool \<Rightarrow> (unit, ByteVector) DeviceBridge" where
  "test_bridge isNegotiationChannel isSlave =
     \<lparr>m_Device = Some (), m_Did = 1, m_TypeNameHash = 0,
      m_IsNegotiationChannel = isNegotiationChannel, m_IsSlave = isSlave, m_IsAlive = True,
      m_InputId = [], m_OutpuId = [], m_NonNegotiatiedArguments = [],
      m_QoS = \<lparr>m_OutgouingPacketId = 7, m_ReciveQueue = []\<rparr>, m_Error = []\<rparr>"

text \<open>The packet of the multi-chunk scenario: the bytes 0, 1, ..., 99.\<close>

definition packet_100 :: ByteVector where
  "packet_100 = map of_nat [0..<100]"

text \<open>The packet of the negotiation scenario: 5000 zero bytes.\<close>

definition packet_5000 :: ByteVector where
  "packet_5000 = replicate 5000 0"

section \<open>Properties of the header codec\<close>

lemma Read_Write_u32: "Read_u32 (Write_u32 w) = w"
  unfolding Read_u32_def Write_u32_def
  apply (rule bit_word_eqI)
  apply (simp add: bit_simps)
  subgoal for n
    apply (cases "n < 8"; cases "n < 16"; cases "n < 24")
    apply (auto simp: le_add_diff_inverse not_less)
    done
  done

lemma Write_Read_u32:
  assumes "length bs = 4"
  shows "Write_u32 (Read_u32 bs) = bs"
proof -
  from assms obtain a b c d where bs: "bs = [a, b, c, d]"
    by (cases bs; cases "tl bs"; cases "tl (tl bs)"; cases "tl (tl (tl bs))") auto
  have a: "ucast (ucast a OR push_bit 8 (ucast b) OR push_bit 16 (ucast c) OR push_bit 24 (ucast d) :: uint32_t) = a"
    by (rule bit_word_eqI) (auto simp: bit_simps)
  have b: "ucast (drop_bit 8 (ucast a OR push_bit 8 (ucast b) OR push_bit 16 (ucast c) OR push_bit 24 (ucast d) :: uint32_t)) = b"
    by (rule bit_word_eqI) (auto simp: bit_simps dest: bit_imp_le_length)
  have c: "ucast (drop_bit 16 (ucast a OR push_bit 8 (ucast b) OR push_bit 16 (ucast c) OR push_bit 24 (ucast d) :: uint32_t)) = c"
    by (rule bit_word_eqI) (auto simp: bit_simps dest: bit_imp_le_length)
  have d: "ucast (drop_bit 24 (ucast a OR push_bit 8 (ucast b) OR push_bit 16 (ucast c) OR push_bit 24 (ucast d) :: uint32_t)) = d"
    by (rule bit_word_eqI) (auto simp: bit_simps dest: bit_imp_le_length)
  show ?thesis
    unfolding bs Write_u32_def Read_u32_def using a b c d by simp
qed

lemma length_Write_u32: "length (Write_u32 w) = 4"
  by (simp add: Write_u32_def)

lemma length_Write_header: "length (Write_header m c s) = 12"
  by (simp add: Write_header_def length_Write_u32)

lemma frame_message_id_header: "frame_message_id (Write_header m c s @ p) = m"
  by (simp add: frame_message_id_def Write_header_def length_Write_u32 Read_Write_u32)

lemma frame_chunk_id_header: "frame_chunk_id (Write_header m c s @ p) = c"
  by (simp add: frame_chunk_id_def Write_header_def length_Write_u32 Read_Write_u32)

lemma frame_original_size_header: "frame_original_size (Write_header m c s @ p) = s"
  by (simp add: frame_original_size_def Write_header_def length_Write_u32 Read_Write_u32)

section \<open>Properties of the decimal rendering\<close>

lemma of_char_digit_char: "d < 10 \<Longrightarrow> of_char (digit_char d) = 48 + d"
  for d :: nat
proof -
  assume "d < 10"
  then have "d \<in> {0, 1, 2, 3, 4, 5, 6, 7, 8, 9}" by auto
  then show ?thesis
    by (auto simp: digit_char_def)
qed

lemma decimal_value_to_string: "decimal_value (to_string n) = n"
proof (induction n rule: to_string.induct)
  case (1 n)
  show ?case
  proof (cases "n < 10")
    case True
    then show ?thesis
      by (simp add: to_string.simps[of n] decimal_value_def of_char_digit_char)
  next
    case False
    with 1 have "decimal_value (to_string (n div 10)) = n div 10" by simp
    with False show ?thesis
      by (simp add: to_string.simps[of n] decimal_value_def of_char_digit_char)
  qed
qed

section \<open>Properties of the send loop\<close>

lemma send_loop_empty: "send_loop fuel ops mf mid os cid [] dev = (Finished, [], dev)"
  by (simp add: send_loop.simps)

lemma send_loop_cases [consumes 1, case_names empty nofuel null threw ub advance retry]:
  assumes "send_loop fuel ops mf mid os cid packet dev = (st, tr, dev')"
  obtains
    "packet = []" "st = Finished" "tr = []" "dev' = dev"
  | "packet \<noteq> []" "fuel = 0" "st = Running" "tr = []" "dev' = dev"
  | "packet \<noteq> []" "fuel \<noteq> 0" "dev = None" "st = Raised undefined_behaviour" "tr = []" "dev' = dev"
  | d e d' where "packet \<noteq> []" "fuel \<noteq> 0" "dev = Some d"
      "OnSendToChannelInternal ops d (Write_header mid cid os @ packet) = (Throws e, d')"
      "st = Raised (passed_on e)" "tr = [(Write_header mid cid os @ packet, Throws e)]" "dev' = Some d'"
  | d sent d' where "packet \<noteq> []" "fuel \<noteq> 0" "dev = Some d"
      "OnSendToChannelInternal ops d (Write_header mid cid os @ packet) = (Returns sent, d')"
      "sent \<ge> mf \<or> sent = length (Write_header mid cid os @ packet)"
      "sent < s_HeaderSize \<or> length packet < sent - s_HeaderSize"
      "st = Raised undefined_behaviour" "tr = [(Write_header mid cid os @ packet, Returns sent)]"
      "dev' = Some d'"
  | d sent d' n tl where "packet \<noteq> []" "fuel = Suc n" "dev = Some d"
      "OnSendToChannelInternal ops d (Write_header mid cid os @ packet) = (Returns sent, d')"
      "sent \<ge> mf \<or> sent = length (Write_header mid cid os @ packet)"
      "s_HeaderSize \<le> sent" "sent - s_HeaderSize \<le> length packet"
      "send_loop n ops mf mid os (cid + 1) (drop (sent - s_HeaderSize) packet) (Some d') = (st, tl, dev')"
      "tr = (Write_header mid cid os @ packet, Returns sent) # tl"
  | d sent d' n tl where "packet \<noteq> []" "fuel = Suc n" "dev = Some d"
      "OnSendToChannelInternal ops d (Write_header mid cid os @ packet) = (Returns sent, d')"
      "\<not> (sent \<ge> mf \<or> sent = length (Write_header mid cid os @ packet))"
      "send_loop n ops mf mid os cid packet (Some d') = (st, tl, dev')"
      "tr = (Write_header mid cid os @ packet, Returns sent) # tl"
proof (cases "packet = []")
  case True
  with assms that(1) show thesis by (simp add: send_loop.simps)
next
  case ne: False
  show thesis
  proof (cases fuel)
    case 0
    with assms ne that(2) show thesis by (simp add: send_loop.simps)
  next
    case (Suc n)
    show thesis
    proof (cases dev)
      case None
      with assms ne Suc that(3) show thesis by (simp add: send_loop.simps)
    next
      case (Some d)
      let ?data = "Write_header mid cid os @ packet"
      obtain r d' where snd: "OnSendToChannelInternal ops d ?data = (r, d')"
        by (cases "OnSendToChannelInternal ops d ?data")
      show thesis
      proof (cases r)
        case (Throws e)
        with assms ne Suc Some snd that(4) show thesis 
          by (simp add: send_loop.simps)
      next
        case (Returns sent)
        show thesis
        proof (cases "sent \<ge> mf \<or> sent = length ?data")
          case acc: True
          show thesis
          proof (cases "sent < s_HeaderSize \<or> length packet < sent - s_HeaderSize")
            case True
            with assms ne Suc Some snd Returns acc that(5)[of d sent d'] show thesis
              by (simp add: send_loop.simps)
          next
            case False
            with assms ne Suc Some snd Returns acc that(6)[of n d sent d'] show thesis
              by (simp add: send_loop.simps[of "Suc n"] split: prod.splits)
          qed
        next
          case False
          with assms ne Suc Some snd Returns that(7)[of n d sent d'] show thesis
            by (simp add: send_loop.simps[of "Suc n"] split: prod.splits)
        qed
      qed
    qed
  qed
qed

lemma send_loop_advance:
  assumes "packet \<noteq> []"
    and "OnSendToChannelInternal ops d (Write_header mid cid os @ packet) = (Returns sent, d')"
    and "sent \<ge> mf \<or> sent = length (Write_header mid cid os @ packet)"
    and "s_HeaderSize \<le> sent" and "sent - s_HeaderSize \<le> length packet"
    and "send_loop n ops mf mid os (cid + 1) (drop (sent - s_HeaderSize) packet) (Some d') = (st, tr, dev')"
  shows "send_loop (Suc n) ops mf mid os cid packet (Some d) =
           (st, (Write_header mid cid os @ packet, Returns sent) # tr, dev')"
  using assms by (simp add: send_loop.simps[of "Suc n"])

lemma send_loop_retry:
  assumes "packet \<noteq> []"
    and "OnSendToChannelInternal ops d (Write_header mid cid os @ packet) = (Returns sent, d')"
    and "\<not> (sent \<ge> mf \<or> sent = length (Write_header mid cid os @ packet))"
    and "send_loop n ops mf mid os cid packet (Some d') = (st, tr, dev')"
  shows "send_loop (Suc n) ops mf mid os cid packet (Some d) =
           (st, (Write_header mid cid os @ packet, Returns sent) # tr, dev')"
  using assms by (simp add: send_loop.simps[of "Suc n"])

lemma send_loop_first_frame:
  assumes "send_loop fuel ops mf mid os cid packet dev = (st, tr, dev')" "tr \<noteq> []"
  shows "fst (hd tr) = Write_header mid cid os @ packet"
  using assms by (cases rule: send_loop_cases) auto

lemma send_loop_no_call:
  assumes "send_loop fuel ops mf mid os cid packet (Some d) = (st, [], dev')" "packet \<noteq> []"
  shows "fuel = 0 \<and> st = Running"
  using assms by (cases rule: send_loop_cases) auto

lemma send_loop_length_le:
  "send_loop fuel ops mf mid os cid packet dev = (st, tr, dev') \<Longrightarrow> length tr \<le> fuel"
proof (induction fuel arbitrary: cid packet dev st tr dev')
  case 0
  then show ?case by (cases rule: send_loop_cases) auto
next
  case (Suc n)
  from Suc.prems show ?case
    by (cases rule: send_loop_cases) (auto dest: Suc.IH)
qed

lemma send_loop_Running:
  "send_loop fuel ops mf mid os cid packet dev = (Running, tr, dev') \<Longrightarrow> length tr = fuel"
proof (induction fuel arbitrary: cid packet dev tr dev')
  case 0
  then show ?case by (cases rule: send_loop_cases) auto
next
  case (Suc n)
  from Suc.prems show ?case
    by (cases rule: send_loop_cases) (auto dest: Suc.IH)
qed

lemma send_loop_more_fuel:
  "send_loop n ops mf mid os cid packet dev = (st, tr, dev') \<Longrightarrow> st \<noteq> Running
   \<Longrightarrow> send_loop (n + k) ops mf mid os cid packet dev = (st, tr, dev')"
proof (induction n arbitrary: cid packet dev st tr dev')
  case 0
  from "0.prems"(1) "0.prems"(2) show ?case
    by (cases rule: send_loop_cases) (auto simp: send_loop.simps)
next
  case (Suc n)
  from Suc.prems(1) show ?case
  proof (cases rule: send_loop_cases)
    case (advance d sent d' m tl)
    then have "send_loop (n + k) ops mf mid os (cid + 1) (drop (sent - s_HeaderSize) packet) (Some d') = (st, tl, dev')"
      using Suc.IH Suc.prems(2) by simp
    with advance show ?thesis
      using send_loop_advance[of packet ops d mid cid os sent d' mf "n + k" st tl dev'] by simp
  next
    case (retry d sent d' m tl)
    then have "send_loop (n + k) ops mf mid os cid packet (Some d') = (st, tl, dev')"
      using Suc.IH Suc.prems(2) by simp
    with retry show ?thesis
      using send_loop_retry[of packet ops d mid cid os sent d' mf "n + k" st tl dev'] by simp
  qed (auto simp: send_loop.simps[of "Suc (n + k)"])
qed

lemma send_loop_headers:
  "send_loop fuel ops mf mid os cid packet dev = (st, tr, dev') \<Longrightarrow> c \<in> set tr
   \<Longrightarrow> frame_message_id (fst c) = mid \<and> frame_original_size (fst c) = os"
proof (induction fuel arbitrary: cid packet dev st tr dev')
  case 0
  then show ?case by (cases rule: send_loop_cases) auto
next
  case (Suc n)
  from Suc.prems(1) Suc.prems(2) show ?case
    by (cases rule: send_loop_cases)
       (auto simp: frame_message_id_header frame_original_size_header dest: Suc.IH)
qed

lemma send_loop_chunk_ids:
  "send_loop fuel ops mf mid os cid packet dev = (st, tr, dev') \<Longrightarrow> Suc i < length tr
   \<Longrightarrow> frame_chunk_id (fst (tr ! Suc i)) =
       frame_chunk_id (fst (tr ! i)) + (if accepted mf (tr ! i) then 1 else 0)"
proof (induction fuel arbitrary: cid packet dev st tr dev' i)
  case 0
  then show ?case by (cases rule: send_loop_cases) auto
next
  case (Suc n)
  from Suc.prems(1) show ?case
  proof (cases rule: send_loop_cases)
    case (advance d sent d' m tl)
    then have rec: "send_loop n ops mf mid os (cid + 1) (drop (sent - s_HeaderSize) packet) (Some d') = (st, tl, dev')"
      by simp
    show ?thesis
    proof (cases i)
      case 0
      with Suc.prems(2) advance have "tl \<noteq> []" by auto
      from send_loop_first_frame[OF rec this] advance 0 \<open>tl \<noteq> []\<close> show ?thesis
        by (simp add: frame_chunk_id_header hd_conv_nth)
    next
      case (Suc j)
      with Suc.prems(2) advance Suc.IH[OF rec, of j] show ?thesis by simp
    qed
  next
    case (retry d sent d' m tl)
    then have rec: "send_loop n ops mf mid os cid packet (Some d') = (st, tl, dev')"
      by simp
    show ?thesis
    proof (cases i)
      case 0
      with Suc.prems(2) retry have "tl \<noteq> []" by auto
      from send_loop_first_frame[OF rec this] retry 0 \<open>tl \<noteq> []\<close> show ?thesis
        by (simp add: frame_chunk_id_header hd_conv_nth)
    next
      case (Suc j)
      with Suc.prems(2) retry Suc.IH[OF rec, of j] show ?thesis by simp
    qed
  qed (use Suc.prems(2) in auto)
qed

lemma send_loop_all_accepted_ids:
  assumes "send_loop fuel ops mf mid os cid packet dev = (st, tr, dev')"
    and "\<forall>c\<in>set tr. accepted mf c" and "i < length tr"
  shows "frame_chunk_id (fst (tr ! i)) = cid + of_nat i"
  using assms(3)
proof (induction i)
  case 0
  then have "tr \<noteq> []" by auto
  from send_loop_first_frame[OF assms(1) this] \<open>tr \<noteq> []\<close> show ?case
    by (simp add: hd_conv_nth frame_chunk_id_header)
next
  case (Suc i)
  then have "i < length tr" by simp
  with assms(2) have "accepted mf (tr ! i)" by simp
  with send_loop_chunk_ids[OF assms(1) Suc.prems] Suc.IH[OF \<open>i < length tr\<close>]
  show ?case by simp
qed

lemma send_loop_stall:
  "send_loop fuel ops mf mid os cid packet dev = (st, tr, dev') \<Longrightarrow> i < length tr
   \<Longrightarrow> stalled mf (tr ! i)
   \<Longrightarrow> (if Suc i < length tr then fst (tr ! Suc i) = fst (tr ! i)
        else st = Running \<and> length tr = fuel)"
proof (induction fuel arbitrary: cid packet dev st tr dev' i)
  case 0
  then show ?case by (cases rule: send_loop_cases) auto
next
  case (Suc n)
  from Suc.prems(1) show ?case
  proof (cases rule: send_loop_cases)
    case (advance d sent d' m tl)
    then have rec: "send_loop n ops mf mid os (cid + 1) (drop (sent - s_HeaderSize) packet) (Some d') = (st, tl, dev')"
      by simp
    show ?thesis
    proof (cases i)
      case 0
      with Suc.prems(3) advance show ?thesis by auto
    next
      case (Suc j)
      with Suc.prems(2,3) advance Suc.IH[OF rec, of j] show ?thesis by (auto split: if_splits)
    qed
  next
    case (retry d sent d' m tl)
    then have rec: "send_loop n ops mf mid os cid packet (Some d') = (st, tl, dev')"
      by simp
    show ?thesis
    proof (cases i)
      case 0
      show ?thesis
      proof (cases "tl = []")
        case True
        with rec retry(1) send_loop_no_call[of n ops mf mid os cid packet d' st dev']
        have "n = 0 \<and> st = Running" by simp
        with True retry 0 show ?thesis by simp
      next
        case False
        from send_loop_first_frame[OF rec False] retry 0 False show ?thesis
          by (simp add: hd_conv_nth)
      qed
    next
      case (Suc j)
      with Suc.prems(2,3) retry Suc.IH[OF rec, of j] show ?thesis by (auto split: if_splits)
    qed
  qed (use Suc.prems(2,3) in \<open>auto simp: s_HeaderSize_def length_Write_header\<close>)
qed

lemma send_loop_all_stalled:
  "send_loop fuel ops mf mid os cid packet (Some d) = (st, tr, dev') \<Longrightarrow> packet \<noteq> []
   \<Longrightarrow> \<forall>c\<in>set tr. stalled mf c
   \<Longrightarrow> st = Running \<and> length tr = fuel \<and> (\<forall>c\<in>set tr. fst c = Write_header mid cid os @ packet)"
proof (induction fuel arbitrary: d st tr dev')
  case 0
  from "0.prems"(1) "0.prems"(2) show ?case
    by (cases rule: send_loop_cases) auto
next
  case (Suc n)
  from Suc.prems(1) show ?case
  proof (cases rule: send_loop_cases)
    case (retry d0 sent d' m tl)
    then have rec: "send_loop n ops mf mid os cid packet (Some d') = (st, tl, dev')" by simp
    from retry Suc.prems(3) have "\<forall>c\<in>set tl. stalled mf c" by simp
    from Suc.IH[OF rec Suc.prems(2) this] retry show ?thesis by simp
  qed (use Suc.prems(2,3) in \<open>auto simp: length_Write_header s_HeaderSize_def\<close>)
qed

lemma well_accepted_accepted: "well_accepted mf c \<Longrightarrow> accepted mf c"
  by (cases "(mf, c)" rule: well_accepted.cases) auto

lemma send_loop_round_trip:
  "s_HeaderSize < mf \<Longrightarrow> send_loop fuel ops mf mid os cid packet (Some d) = (st, tr, dev')
   \<Longrightarrow> \<forall>c\<in>set tr. well_accepted mf c \<Longrightarrow> length packet \<le> fuel
   \<Longrightarrow> st = Finished \<and> concat (map payload_slice tr) = packet"
proof (induction fuel arbitrary: cid packet d st tr dev')
  case 0
  from "0.prems"(2) "0.prems"(4) show ?case
    by (cases rule: send_loop_cases) auto
next
  case (Suc n)
  from Suc.prems(2) show ?case
  proof (cases rule: send_loop_cases)
    case (advance d0 sent d' m tl)
    let ?rest = "drop (sent - s_HeaderSize) packet"
    from advance Suc.prems(3) have wa: "mf \<le> sent \<or> sent = length (Write_header mid cid os @ packet)"
      by auto
    with Suc.prems(1) advance(1) have pos: "0 < sent - s_HeaderSize"
      by (cases packet) (auto simp: length_Write_header s_HeaderSize_def)
    with Suc.prems(4) advance(1) have len: "length ?rest \<le> n"
      by (cases packet) auto
    from advance have rec: "send_loop n ops mf mid os (cid + 1) ?rest (Some d') = (st, tl, dev')"
      by simp
    from advance Suc.prems(3) have "\<forall>c\<in>set tl. well_accepted mf c" by simp
    from Suc.IH[OF Suc.prems(1) rec this len]
    have ih: "st = Finished" "concat (map payload_slice tl) = ?rest" by auto
    have "payload_slice (Write_header mid cid os @ packet, Returns sent) = take (sent - s_HeaderSize) packet"
      using advance(6) by (simp add: length_Write_header s_HeaderSize_def)
    with ih advance(9) show ?thesis by simp
  next
    case (retry d0 sent d' m tl)
    with Suc.prems(3) show ?thesis by auto
  qed (use Suc.prems(1,3) in \<open>auto simp: length_Write_header s_HeaderSize_def\<close>)
qed

lemma OnPassNetworkPacket_chunked:
  assumes "\<not> m_IsNegotiationChannel b"
    and "OnPassNetworkPacket fuel ops mf b packet = (st, tr, b')"
  shows "send_loop fuel ops mf (m_OutgouingPacketId (m_QoS b)) (of_nat (length packet)) 0 packet
           (m_Device b) = (st, tr, m_Device b')"
    and "m_QoS b' = (m_QoS b)\<lparr>m_OutgouingPacketId := m_OutgouingPacketId (m_QoS b) + 1\<rparr>"
  using assms
  by (auto simp: OnPassNetworkPacket_def GetOutgouingPacketId_def Let_def split: prod.splits)

lemma send_loop_device_after:
  "send_loop fuel ops mf mid os cid packet (Some d) = (st, tr, dev') \<Longrightarrow> device_after ops d tr = dev'"
proof (induction fuel arbitrary: cid packet d st tr dev')
  case 0
  then show ?case by (cases rule: send_loop_cases) auto
next
  case (Suc n)
  from Suc.prems show ?case
    by (cases rule: send_loop_cases) (auto dest: Suc.IH)
qed

lemma send_loop_frames:
  "s_HeaderSize < mf \<Longrightarrow> send_loop fuel ops mf mid os cid packet (Some d) = (st, tr, dev')
   \<Longrightarrow> \<forall>c\<in>set tr. well_accepted mf c \<Longrightarrow> i < length tr
   \<Longrightarrow> fst (tr ! i) =
       Write_header mid (cid + of_nat i) os @
         drop (length (concat (map payload_slice (take i tr)))) packet"
proof (induction fuel arbitrary: cid packet d st tr dev' i)
  case 0
  from "0.prems"(2) "0.prems"(4) show ?case
    by (cases rule: send_loop_cases) auto
next
  case (Suc n)
  from Suc.prems(2) show ?case
  proof (cases rule: send_loop_cases)
    case (advance d0 sent d' m tl)
    let ?rest = "drop (sent - s_HeaderSize) packet"
    from advance have rec: "send_loop n ops mf mid os (cid + 1) ?rest (Some d') = (st, tl, dev')"
      by simp
    from advance Suc.prems(3) have wa: "\<forall>c\<in>set tl. well_accepted mf c" by simp
    have ps: "payload_slice (Write_header mid cid os @ packet, Returns sent) = take (sent - s_HeaderSize) packet"
      using advance(6) by (simp add: length_Write_header s_HeaderSize_def)
    show ?thesis
    proof (cases i)
      case 0
      with advance show ?thesis by simp
    next
      case (Suc j)
      with Suc.prems(4) advance have j: "j < length tl" by simp
      from Suc.IH[OF Suc.prems(1) rec wa j]
      have "fst (tl ! j) = Write_header mid (cid + 1 + of_nat j) os @
         drop (length (concat (map payload_slice (take j tl)))) ?rest" .
      with Suc advance(7,9) ps show ?thesis
        by (simp add: add.commute add.left_commute min_absorb2)
    qed
  next
    case (retry d0 sent d' m tl)
    with Suc.prems(3) show ?thesis by auto
  qed (use Suc.prems(1,3,4) in \<open>auto simp: length_Write_header s_HeaderSize_def\<close>)
qed

section \<open>The packets of the scenarios\<close>

lemma length_packet_100: "length packet_100 = 100"
  by (simp add: packet_100_def)

lemma packet_100_ne: "packet_100 \<noteq> []"
  by (simp add: packet_100_def upt_rec[of _ "numeral _"])

lemma run100: "send_loop 13 (test_device (\<lambda>frame. min 20 (length frame)) r) 20 mid 100 0 packet_100 (Some ())
   = (Finished, map (\<lambda>i. (Write_header mid (of_nat i) 100 @ drop (8 * i) packet_100, Returns (min 20 (112 - 8 * i)))) [0..<13], Some ())"
  apply (simp add: send_loop.simps test_device_def length_Write_header length_packet_100 s_HeaderSize_def packet_100_ne upt_rec[of _ "numeral _"] )
  done

lemma OnPassNetworkPacket_100:
  assumes "\<not> m_IsNegotiationChannel b" and "m_Device b = Some ()" and "13 \<le> fuel"
  shows "OnPassNetworkPacket fuel (test_device (\<lambda>frame. min 20 (length frame)) received) 20 b packet_100 =
    (Finished,
     map (\<lambda>i. (Write_header (m_OutgouingPacketId (m_QoS b)) (of_nat i) 100 @ drop (8 * i) packet_100,
                Returns (min 20 (112 - 8 * i)))) [0..<13],
     b\<lparr>m_QoS := (m_QoS b)\<lparr>m_OutgouingPacketId := m_OutgouingPacketId (m_QoS b) + 1\<rparr>\<rparr>)"
proof -
  from assms(3) obtain k where k: "fuel = 13 + k"
    using le_Suc_ex by blast
  have "send_loop (13 + k) (test_device (\<lambda>frame. min 20 (length frame)) received) 20
          (m_OutgouingPacketId (m_QoS b)) 100 0 packet_100 (Some ()) =
        (Finished,
         map (\<lambda>i. (Write_header (m_OutgouingPacketId (m_QoS b)) (of_nat i) 100 @ drop (8 * i) packet_100,
                Returns (min 20 (112 - 8 * i)))) [0..<13], Some ())"
    by (rule send_loop_more_fuel[OF run100]) simp
  with assms(1,2) k show ?thesis
    by (simp add: OnPassNetworkPacket_def GetOutgouingPacketId_def length_packet_100)
qed

lemma stalled_run:
  "OnPassNetworkPacket 3 (test_device (\<lambda>frame. 5) (Returns ())) 20 (test_bridge False False) packet_100 =
     (Running, replicate 3 (Write_header 7 0 100 @ packet_100, Returns 5),
      (test_bridge False False)\<lparr>m_QoS := \<lparr>m_OutgouingPacketId = 8, m_ReciveQueue = []\<rparr>\<rparr>)"
  by (simp add: OnPassNetworkPacket_def GetOutgouingPacketId_def test_bridge_def test_device_def
      send_loop.simps length_packet_100 packet_100_ne length_Write_header numeral_3_eq_3 Let_def)

lemma length_packet_5000: "length packet_5000 = 5000"
  by (simp only: packet_5000_def length_replicate)

section \<open>Claims about sending\<close>

text \<open>
  Claim C1 (chunking round trip). On a bridge that is not a negotiation channel and has a
  device, take a send of the packet \<open>P\<close> in which every transport call returned a count
  \<open>sent\<close> with \<open>s_MinFrameSize \<le> sent \<le> frame.size()\<close> or \<open>sent = frame.size()\<close>. Then the
  send returns (a bound of \<open>length P\<close> transport calls is enough), and the payload
  slices of the chunks, each the part of the frame sent without its twelve-byte header,
  concatenated in the order of the calls, are \<open>P\<close>; the chunk ids of the calls are
  0, 1, 2, ..., so that this order is the order of the chunk ids. The calls are the
  calls made on the device: replayed on it from its state before the send, each frame
  gets the reply recorded and the device ends in the state the bridge holds afterwards.
  Each frame is the header with the message id of QoS, the chunk id and the size of
  \<open>P\<close>, followed by all of \<open>P\<close> that the calls before it have not transmitted.
  \<open>s_MinFrameSize\<close> is a constant declared outside \<open>DeviceBridge.cpp\<close>; it is a parameter
  here, and the statement needs it to exceed the header size.
\<close>
theorem chunking_round_trip:
  assumes "s_HeaderSize < s_MinFrameSize"
    and "\<not> m_IsNegotiationChannel b"
    and "m_Device b = Some d"
    and "OnPassNetworkPacket fuel ops s_MinFrameSize b P = (st, tr, b')"
    and "\<forall>c\<in>set tr. well_accepted s_MinFrameSize c"
    and "length P \<le> fuel"
  shows "st = Finished \<and> concat (map payload_slice tr) = P \<and>
         (\<forall>i<length tr. frame_chunk_id (fst (tr ! i)) = of_nat i) \<and>
         device_after ops d tr = m_Device b' \<and>
         (\<forall>i<length tr.
            fst (tr ! i) =
              Write_header (m_OutgouingPacketId (m_QoS b)) (of_nat i) (of_nat (length P)) @
                drop (length (concat (map payload_slice (take i tr)))) P)"
proof -
  note run = OnPassNetworkPacket_chunked(1)[OF assms(2) assms(4), unfolded assms(3)]
  from send_loop_round_trip[OF assms(1) run assms(5) assms(6)]
  have "st = Finished" "concat (map payload_slice tr) = P" by auto
  moreover from assms(5) have "\<forall>c\<in>set tr. accepted s_MinFrameSize c"
    by (auto dest: well_accepted_accepted)
  then have "\<forall>i<length tr. frame_chunk_id (fst (tr ! i)) = of_nat i"
    using send_loop_all_accepted_ids[OF run] by simp
  moreover have "device_after ops d tr = m_Device b'"
    by (rule send_loop_device_after[OF run])
  moreover have "\<forall>i<length tr.
            fst (tr ! i) =
              Write_header (m_OutgouingPacketId (m_QoS b)) (of_nat i) (of_nat (length P)) @
                drop (length (concat (map payload_slice (take i tr)))) P"
    using send_loop_frames[OF assms(1) run assms(5)] by simp
  ultimately show ?thesis by simp
qed

theorem chunking_round_trip_witness:
  "s_HeaderSize < 20 \<and> length packet_100 \<le> 100 \<and>
   fst (OnPassNetworkPacket 100 (test_device (\<lambda>frame. min 20 (length frame)) (Returns ())) 20
          (test_bridge False False) packet_100) = Finished \<and>
   fst (snd (OnPassNetworkPacket 100 (test_device (\<lambda>frame. min 20 (length frame)) (Returns ())) 20
          (test_bridge False False) packet_100)) =
     map (\<lambda>i. (Write_header 7 (of_nat i) 100 @ drop (8 * i) packet_100, Returns (min 20 (112 - 8 * i))))
       [0..<13] \<and>
   list_all (well_accepted 20)
     (fst (snd (OnPassNetworkPacket 100 (test_device (\<lambda>frame. min 20 (length frame)) (Returns ())) 20
          (test_bridge False False) packet_100))) \<and>
   concat (map payload_slice (fst (snd
     (OnPassNetworkPacket 100 (test_device (\<lambda>frame. min 20 (length frame)) (Returns ())) 20
        (test_bridge False False) packet_100)))) = packet_100 \<and>
   device_after (test_device (\<lambda>frame. min 20 (length frame)) (Returns ())) ()
     (fst (snd (OnPassNetworkPacket 100 (test_device (\<lambda>frame. min 20 (length frame)) (Returns ())) 20
          (test_bridge False False) packet_100))) = Some ()"
proof -
  let ?b = "test_bridge False False"
  let ?dev = "test_device (\<lambda>frame. min 20 (length frame)) (Returns ())"
  let ?tr = "map (\<lambda>i. (Write_header (m_OutgouingPacketId (m_QoS ?b)) (of_nat i) 100 @ drop (8 * i) packet_100,
                Returns (min 20 (112 - 8 * i)))) [0..<13]"
  let ?b' = "?b\<lparr>m_QoS := (m_QoS ?b)\<lparr>m_OutgouingPacketId := m_OutgouingPacketId (m_QoS ?b) + 1\<rparr>\<rparr>"
  have h1: "s_HeaderSize < 20" by (simp add: s_HeaderSize_def)
  have h2: "\<not> m_IsNegotiationChannel ?b" by (simp add: test_bridge_def)
  have h3: "m_Device ?b = Some ()" by (simp add: test_bridge_def)
  have run: "OnPassNetworkPacket 100 ?dev 20 ?b packet_100 = (Finished, ?tr, ?b')"
    by (rule OnPassNetworkPacket_100) (simp_all add: test_bridge_def)
  have h5: "\<forall>c\<in>set ?tr. well_accepted 20 c"
    by (auto simp: length_Write_header length_packet_100 simp del: upt_Suc)
  have h6: "length packet_100 \<le> 100" by (simp add: length_packet_100)
  have mid: "m_OutgouingPacketId (m_QoS ?b) = 7" and dev': "m_Device ?b' = Some ()"
    by (simp_all add: test_bridge_def)
  note rt = chunking_round_trip[OF h1 h2 h3 run h5 h6]
  from rt have a: "concat (map payload_slice ?tr) = packet_100" by (simp only:)
  from rt have b: "device_after ?dev () ?tr = Some ()" by (simp only: dev')
  from h5 have c: "list_all (well_accepted 20) ?tr" by (simp only: list_all_iff)
  from a b c h1 h6 show ?thesis
    by (simp only: run fst_conv snd_conv mid simp_thms)
qed

text \<open>
  Claim C2 (negotiation one-shot). On a negotiation channel a send makes exactly one
  transport call, with the packet itself and no header. If the transport returns a
  count different from the packet size, the send throws a \<open>runtime_error\<close> whose message
  contains the packet size and the count returned, in decimal; if it returns the packet
  size the send returns; an exception of the transport is passed on. QoS is not touched.
\<close>
theorem negotiation_one_shot:
  assumes "m_IsNegotiationChannel b"
    and "m_Device b = Some d"
    and "OnSendToChannelInternal ops d P = (r, d')"
  shows "OnPassNetworkPacket fuel ops s_MinFrameSize b P =
           ((case r of
               Returns sent \<Rightarrow>
                 if sent \<noteq> length P
                 then Raised (runtime_error
                        (''Negotiation channel does not support chunking. Packet size: ''
                           @ to_string (length P) @ '' Channel sent: '' @ to_string sent))
                 else Finished
             | Throws e \<Rightarrow> Raised (passed_on e)),
            [(P, r)], b\<lparr>m_Device := Some d'\<rparr>)"
  using assms by (cases r) (simp_all add: OnPassNetworkPacket_def)

theorem negotiation_one_shot_witness:
  "OnPassNetworkPacket 0 (test_device (\<lambda>frame. 1400) (Returns ())) 20 (test_bridge True False)
      (packet_5000) =
     (Raised (runtime_error
        ''Negotiation channel does not support chunking. Packet size: 5000 Channel sent: 1400''),
      [(packet_5000, Returns 1400)], test_bridge True False)"
  using negotiation_one_shot[of "test_bridge True False" "()" "test_device (\<lambda>frame. 1400) (Returns ())"
      "packet_5000" "Returns 1400" "()" 0 20]
  by (simp add: test_bridge_def test_device_def to_string.simps digit_char_def length_packet_5000)

text \<open>
  Claim C3 (no-progress retry). In a send on a bridge that is not a negotiation channel,
  whenever a transport call returned \<open>sent < s_MinFrameSize\<close> with \<open>sent < frame.size()\<close>,
  the next call offers the same bytes (so the same message id, chunk id, original size
  and payload) and the chunk id has not advanced; a next call is missing only when the
  bound on the number of calls is used up, with the loop still running. If every call
  of a send of a non-empty packet is of this kind, the loop is still running at any
  bound, all calls allowed by the bound have been made, and each offered the first frame.
\<close>
theorem no_progress_retry:
  assumes "\<not> m_IsNegotiationChannel b"
    and "OnPassNetworkPacket fuel ops s_MinFrameSize b P = (st, tr, b')"
  shows "(\<forall>i<length tr. stalled s_MinFrameSize (tr ! i) \<longrightarrow>
            (if Suc i < length tr
             then fst (tr ! Suc i) = fst (tr ! i) \<and>
                  frame_chunk_id (fst (tr ! Suc i)) = frame_chunk_id (fst (tr ! i))
             else st = Running \<and> length tr = fuel)) \<and>
         (P \<noteq> [] \<and> m_Device b \<noteq> None \<and> (\<forall>c\<in>set tr. stalled s_MinFrameSize c) \<longrightarrow>
            st = Running \<and> length tr = fuel \<and>
            (\<forall>c\<in>set tr. fst c =
               Write_header (m_OutgouingPacketId (m_QoS b)) 0 (of_nat (length P)) @ P))"
proof -
  note run = OnPassNetworkPacket_chunked(1)[OF assms]
  have "\<forall>i<length tr. stalled s_MinFrameSize (tr ! i) \<longrightarrow>
            (if Suc i < length tr
             then fst (tr ! Suc i) = fst (tr ! i) \<and>
                  frame_chunk_id (fst (tr ! Suc i)) = frame_chunk_id (fst (tr ! i))
             else st = Running \<and> length tr = fuel)"
    using send_loop_stall[OF run] by (auto split: if_splits)
  moreover have "st = Running \<and> length tr = fuel \<and>
            (\<forall>c\<in>set tr. fst c =
               Write_header (m_OutgouingPacketId (m_QoS b)) 0 (of_nat (length P)) @ P)"
    if "P \<noteq> []" "m_Device b \<noteq> None" "\<forall>c\<in>set tr. stalled s_MinFrameSize c"
  proof -
    from that(2) obtain d where d: "m_Device b = Some d" by auto
    from send_loop_all_stalled[OF run[unfolded d] that(1) that(3)] show ?thesis .
  qed
  ultimately show ?thesis by blast
qed

theorem no_progress_retry_witness:
  "stalled 20 (fst (snd (OnPassNetworkPacket 3 (test_device (\<lambda>frame. 5) (Returns ())) 20
       (test_bridge False False) packet_100)) ! 0) \<and>
   fst (fst (snd (OnPassNetworkPacket 3 (test_device (\<lambda>frame. 5) (Returns ())) 20
       (test_bridge False False) packet_100)) ! Suc 0) =
   fst (fst (snd (OnPassNetworkPacket 3 (test_device (\<lambda>frame. 5) (Returns ())) 20
       (test_bridge False False) packet_100)) ! 0) \<and>
   fst (OnPassNetworkPacket 3 (test_device (\<lambda>frame. 5) (Returns ())) 20
       (test_bridge False False) packet_100) = Running"
proof -
  let ?b = "test_bridge False False"
  let ?tr = "replicate 3 (Write_header 7 0 100 @ packet_100, Returns (5::nat))"
  have h1: "\<not> m_IsNegotiationChannel ?b" by (simp add: test_bridge_def)
  have st: "stalled 20 (?tr ! 0)"
    by (simp add: length_Write_header length_packet_100)
  have all: "packet_100 \<noteq> [] \<and> m_Device ?b \<noteq> None \<and> (\<forall>c\<in>set ?tr. stalled 20 c)"
    by (simp add: packet_100_ne test_bridge_def length_Write_header length_packet_100)
  from no_progress_retry[OF h1 stalled_run] st all show ?thesis
    unfolding stalled_run by simp
qed

text \<open>
  Claim C4 (header consistency). In a send on a bridge that is not a negotiation channel,
  every frame offered carries the message id that QoS handed out before the loop and,
  as original size, the byte length of the whole packet as a \<open>uint32_t\<close> (the length
  itself when it is below \<open>2 ^ 32\<close>); the first frame has chunk id 0, and the chunk id of
  each further frame is that of the frame before, plus one exactly when that frame was
  accepted. The message id was taken from QoS once: its counter has advanced by one.
\<close>
theorem header_consistency:
  assumes "\<not> m_IsNegotiationChannel b"
    and "OnPassNetworkPacket fuel ops s_MinFrameSize b P = (st, tr, b')"
  shows "(\<forall>c\<in>set tr. frame_message_id (fst c) = m_OutgouingPacketId (m_QoS b) \<and>
                      frame_original_size (fst c) = of_nat (length P) \<and>
                      (length P < 2 ^ 32 \<longrightarrow> unat (frame_original_size (fst c)) = length P)) \<and>
         (tr \<noteq> [] \<longrightarrow> frame_chunk_id (fst (hd tr)) = 0) \<and>
         (\<forall>i. Suc i < length tr \<longrightarrow>
            frame_chunk_id (fst (tr ! Suc i)) =
              frame_chunk_id (fst (tr ! i)) + (if accepted s_MinFrameSize (tr ! i) then 1 else 0)) \<and>
         m_OutgouingPacketId (m_QoS b') = m_OutgouingPacketId (m_QoS b) + 1"
proof -
  note run = OnPassNetworkPacket_chunked(1)[OF assms]
  have a: "\<forall>c\<in>set tr. frame_message_id (fst c) = m_OutgouingPacketId (m_QoS b) \<and>
                      frame_original_size (fst c) = of_nat (length P) \<and>
                      (length P < 2 ^ 32 \<longrightarrow> unat (frame_original_size (fst c)) = length P)"
  proof
    fix c assume "c \<in> set tr"
    from send_loop_headers[OF run this]
    have h: "frame_message_id (fst c) = m_OutgouingPacketId (m_QoS b)"
        "frame_original_size (fst c) = of_nat (length P)" by auto
    have "unat (of_nat (length P) :: uint32_t) = length P" if "length P < 2 ^ 32"
      using that by (simp add: unat_of_nat)
    with h show "frame_message_id (fst c) = m_OutgouingPacketId (m_QoS b) \<and>
                      frame_original_size (fst c) = of_nat (length P) \<and>
                      (length P < 2 ^ 32 \<longrightarrow> unat (frame_original_size (fst c)) = length P)"
      by simp
  qed
  have b: "tr \<noteq> [] \<longrightarrow> frame_chunk_id (fst (hd tr)) = 0"
    using send_loop_first_frame[OF run] by (simp add: frame_chunk_id_header)
  have c: "\<forall>i. Suc i < length tr \<longrightarrow>
            frame_chunk_id (fst (tr ! Suc i)) =
              frame_chunk_id (fst (tr ! i)) + (if accepted s_MinFrameSize (tr ! i) then 1 else 0)"
    using send_loop_chunk_ids[OF run] by blast
  have d: "m_OutgouingPacketId (m_QoS b') = m_OutgouingPacketId (m_QoS b) + 1"
    using OnPassNetworkPacket_chunked(2)[OF assms] by simp
  from a b c d show ?thesis by blast
qed

theorem header_consistency_witness:
  "list_all (\<lambda>c. frame_message_id (fst c) = 7 \<and> frame_original_size (fst c) = 100)
     (fst (snd (OnPassNetworkPacket 13 (test_device (\<lambda>frame. min 20 (length frame)) (Returns ())) 20
        (test_bridge False False) packet_100))) \<and>
   frame_chunk_id (fst (fst (snd (OnPassNetworkPacket 13 (test_device (\<lambda>frame. min 20 (length frame)) (Returns ())) 20
        (test_bridge False False) packet_100)) ! Suc 0)) = 1"
proof -
  let ?b = "test_bridge False False"
  let ?tr = "map (\<lambda>i. (Write_header (m_OutgouingPacketId (m_QoS ?b)) (of_nat i) 100 @ drop (8 * i) packet_100,
                Returns (min 20 (112 - 8 * i)))) [0..<13]"
  have h1: "\<not> m_IsNegotiationChannel ?b" by (simp add: test_bridge_def)
  have run: "OnPassNetworkPacket 13 (test_device (\<lambda>frame. min 20 (length frame)) (Returns ())) 20 ?b packet_100 =
    (Finished, ?tr, ?b\<lparr>m_QoS := (m_QoS ?b)\<lparr>m_OutgouingPacketId := m_OutgouingPacketId (m_QoS ?b) + 1\<rparr>\<rparr>)"
    by (rule OnPassNetworkPacket_100) (simp_all add: test_bridge_def)
  have ne: "?tr \<noteq> []" and len: "Suc 0 < length ?tr" by simp_all
  have acc: "accepted 20 (?tr ! 0)" by (simp add: upt_rec[of 0 "numeral _"])
  have hd: "hd ?tr = ?tr ! 0" by (rule hd_conv_nth) simp
  have mid: "m_OutgouingPacketId (m_QoS ?b) = 7" and sz: "length packet_100 = 100"
    by (simp_all add: test_bridge_def length_packet_100)
  note hc = header_consistency[OF h1 run]
  have a: "\<forall>c\<in>set ?tr. frame_message_id (fst c) = 7 \<and> frame_original_size (fst c) = 100"
    using hc[THEN conjunct1] by (simp only: mid sz) simp
  have b: "frame_chunk_id (fst (?tr ! 0)) = 0"
    using hc[THEN conjunct2, THEN conjunct1, rule_format, OF ne] by (simp only: hd)
  have c: "frame_chunk_id (fst (?tr ! Suc 0)) = frame_chunk_id (fst (?tr ! 0)) + 1"
    using hc[THEN conjunct2, THEN conjunct2, THEN conjunct1, rule_format, of 0, OF len]
    by (simp only: acc if_True)
  from b c have "frame_chunk_id (fst (?tr ! Suc 0)) = 1" by (simp only: add_0)
  with a show ?thesis by (simp only: run fst_conv snd_conv mid simp_thms list_all_iff)
qed

text \<open>
  Claim C6 (multi-chunk arithmetic). The 100-byte packet 0, 1, ..., 99 is sent on a bridge
  that is not a negotiation channel, with \<open>s_MinFrameSize = 20\<close>, over a transport that
  accepts \<open>min(20, frame.size())\<close> bytes per call. With a bound of at least 13 calls the
  send returns after exactly 13 calls: the calls 0 to 11 transmit 20 bytes, that is 8
  bytes of payload each, the bytes \<open>8 i\<close> to \<open>8 i + 7\<close> of the packet, with chunk id \<open>i\<close>;
  call 12 transmits the last 4 bytes with chunk id 12; every header has original size 100.
\<close>
theorem multi_chunk_send:
  assumes "\<not> m_IsNegotiationChannel b" and "m_Device b = Some ()" and "13 \<le> fuel"
  shows "case OnPassNetworkPacket fuel (test_device (\<lambda>frame. min 20 (length frame)) received) 20 b packet_100 of
           (st, tr, b') \<Rightarrow>
             st = Finished \<and> length tr = 13 \<and>
             (\<forall>i<12. snd (tr ! i) = Returns 20 \<and>
                      payload_slice (tr ! i) = take 8 (drop (8 * i) packet_100) \<and>
                      length (payload_slice (tr ! i)) = 8 \<and>
                      frame_chunk_id (fst (tr ! i)) = of_nat i) \<and>
             snd (tr ! 12) = Returns 16 \<and>
             payload_slice (tr ! 12) = drop 96 packet_100 \<and>
             length (payload_slice (tr ! 12)) = 4 \<and>
             frame_chunk_id (fst (tr ! 12)) = 12 \<and>
             (\<forall>c\<in>set tr. frame_original_size (fst c) = 100)"
proof -
  let ?mid = "m_OutgouingPacketId (m_QoS b)"
  let ?tr = "map (\<lambda>i. (Write_header ?mid (of_nat i) 100 @ drop (8 * i) packet_100,
                Returns (min 20 (112 - 8 * i)))) [0..<13]"
  have nth: "?tr ! i = (Write_header ?mid (of_nat i) 100 @ drop (8 * i) packet_100,
                Returns (min 20 (112 - 8 * i)))" if "i < 13" for i
    using that by (simp del: upt_Suc)
  have first: "snd (?tr ! i) = Returns 20 \<and>
                      payload_slice (?tr ! i) = take 8 (drop (8 * i) packet_100) \<and>
                      length (payload_slice (?tr ! i)) = 8 \<and>
                      frame_chunk_id (fst (?tr ! i)) = of_nat i" if "i < 12" for i
  proof -
    from that have "i < 13" by simp
    from nth[OF this] that show ?thesis
      by (simp add: frame_chunk_id_header length_Write_header s_HeaderSize_def length_packet_100
          del: upt_Suc)
  qed
  have last: "snd (?tr ! 12) = Returns 16 \<and>
             payload_slice (?tr ! 12) = drop 96 packet_100 \<and>
             length (payload_slice (?tr ! 12)) = 4 \<and>
             frame_chunk_id (fst (?tr ! 12)) = 12"
    using nth[of 12]
    by (simp add: frame_chunk_id_header length_Write_header s_HeaderSize_def length_packet_100
          del: upt_Suc)
  have os: "\<forall>c\<in>set ?tr. frame_original_size (fst c) = 100"
    by (auto simp: frame_original_size_header simp del: upt_Suc)
  have len: "length ?tr = 13" by simp
  from first have firsts: "\<forall>i<12. snd (?tr ! i) = Returns 20 \<and>
                      payload_slice (?tr ! i) = take 8 (drop (8 * i) packet_100) \<and>
                      length (payload_slice (?tr ! i)) = 8 \<and>
                      frame_chunk_id (fst (?tr ! i)) = of_nat i"
    by blast
  show ?thesis
    unfolding OnPassNetworkPacket_100[OF assms] prod.case
    using firsts last os len by blast
qed

theorem multi_chunk_send_witness:
  "fst (OnPassNetworkPacket 13 (test_device (\<lambda>frame. min 20 (length frame)) (Returns ())) 20
          (test_bridge False False) packet_100) = Finished \<and>
   length (fst (snd (OnPassNetworkPacket 13 (test_device (\<lambda>frame. min 20 (length frame)) (Returns ())) 20
          (test_bridge False False) packet_100))) = 13"
proof -
  have h1: "\<not> m_IsNegotiationChannel (test_bridge False False)"
    and h2: "m_Device (test_bridge False False) = Some ()" and h3: "(13::nat) \<le> 13"
    by (simp_all add: test_bridge_def)
  from multi_chunk_send[OF h1 h2 h3, of "Returns ()"] show ?thesis
    by (simp split: prod.splits)
qed

text \<open>
  Claim C9 (empty packet). A send of the empty packet on a bridge that is not a
  negotiation channel returns without error and without any transport call, whatever
  the bound and even without a device; the only change to the bridge is that the
  outgoing message id counter of QoS has advanced by one.
\<close>
theorem empty_packet_send:
  assumes "\<not> m_IsNegotiationChannel b"
  shows "OnPassNetworkPacket fuel ops s_MinFrameSize b [] =
           (Finished, [],
            b\<lparr>m_QoS := (m_QoS b)\<lparr>m_OutgouingPacketId := m_OutgouingPacketId (m_QoS b) + 1\<rparr>\<rparr>)"
  using assms
  by (simp add: OnPassNetworkPacket_def GetOutgouingPacketId_def send_loop_empty)

theorem empty_packet_send_witness:
  "OnPassNetworkPacket 0 (test_device (\<lambda>frame. 0) (Returns ())) 20 (test_bridge False False) [] =
     (Finished, [],
      (test_bridge False False)\<lparr>m_QoS := \<lparr>m_OutgouingPacketId = 8, m_ReciveQueue = []\<rparr>\<rparr>)"
  using empty_packet_send[of "test_bridge False False" 0 "test_device (\<lambda>frame. 0) (Returns ())" 20]
  by (simp add: test_bridge_def)

section \<open>The claim about receiving\<close>

text \<open>
  Claim C5 (receive routing). For a frame passed to \<open>PassNetworkPacket\<close>: on a
  negotiation channel that is not a slave, the relay receives the frame as it is, once,
  and the bridge with its QoS is unchanged. Otherwise the frame is pushed into QoS and
  the next packet is asked for; the relay is called, once and with that packet, exactly
  when the packet returned is not empty. An exception of QoS is passed on without a
  call of the relay.
\<close>
theorem receive_routing:
  "(m_IsNegotiationChannel b \<and> \<not> m_IsSlave b \<longrightarrow>
      PassNetworkPacket qops b frame = (Finished, [frame], b)) \<and>
   (\<not> (m_IsNegotiationChannel b \<and> \<not> m_IsSlave b) \<longrightarrow>
      (\<forall>q1 nextPacket q2.
         PushReceivedChunk qops (m_QoS b) frame = (Returns (), q1) \<and>
         GetNextPacket qops q1 = (Returns nextPacket, q2) \<longrightarrow>
         PassNetworkPacket qops b frame =
           (Finished, if nextPacket \<noteq> [] then [nextPacket] else [], b\<lparr>m_QoS := q2\<rparr>)) \<and>
      (\<forall>e q1. PushReceivedChunk qops (m_QoS b) frame = (Throws e, q1) \<longrightarrow>
         PassNetworkPacket qops b frame = (Raised (passed_on e), [], b\<lparr>m_QoS := q1\<rparr>)) \<and>
      (\<forall>q1 e q2.
         PushReceivedChunk qops (m_QoS b) frame = (Returns (), q1) \<and>
         GetNextPacket qops q1 = (Throws e, q2) \<longrightarrow>
         PassNetworkPacket qops b frame = (Raised (passed_on e), [], b\<lparr>m_QoS := q2\<rparr>)))"
  by (auto simp: PassNetworkPacket_def)

theorem receive_routing_witness:
  "PassNetworkPacket test_qos (test_bridge True False) (Write_header 7 0 3 @ [1, 2, 3]) =
     (Finished, [Write_header 7 0 3 @ [1, 2, 3]], test_bridge True False) \<and>
   PassNetworkPacket test_qos (test_bridge False False) (Write_header 7 0 3 @ [1, 2, 3]) =
     (Finished, [[1, 2, 3]], test_bridge False False) \<and>
   PassNetworkPacket test_qos (test_bridge True True) (Write_header 7 0 3) =
     (Finished, [], test_bridge True True) \<and>
   PassNetworkPacket (test_qos\<lparr>PushReceivedChunk := \<lambda>q chunk. (Throws unknown_exception, q)\<rparr>)
       (test_bridge False False) (Write_header 7 0 3) =
     (Raised (passed_on unknown_exception), [], test_bridge False False)"
proof -
  have neg: "m_IsNegotiationChannel (test_bridge True False) \<and> \<not> m_IsSlave (test_bridge True False)"
    by (simp add: test_bridge_def)
  have chunked: "\<not> (m_IsNegotiationChannel (test_bridge False False) \<and> \<not> m_IsSlave (test_bridge False False))"
     "\<not> (m_IsNegotiationChannel (test_bridge True True) \<and> \<not> m_IsSlave (test_bridge True True))"
    by (simp_all add: test_bridge_def)
  have push1: "PushReceivedChunk test_qos (m_QoS (test_bridge False False)) (Write_header 7 0 3 @ [1, 2, 3]) =
      (Returns (), \<lparr>m_OutgouingPacketId = 7, m_ReciveQueue = [1, 2, 3]\<rparr>) \<and>
    GetNextPacket test_qos \<lparr>m_OutgouingPacketId = 7, m_ReciveQueue = [1, 2, 3]\<rparr> =
      (Returns [1, 2, 3], m_QoS (test_bridge False False))"
    by (simp add: test_qos_def test_bridge_def length_Write_header s_HeaderSize_def)
  have push2: "PushReceivedChunk test_qos (m_QoS (test_bridge True True)) (Write_header 7 0 3) =
      (Returns (), m_QoS (test_bridge True True)) \<and>
    GetNextPacket test_qos (m_QoS (test_bridge True True)) =
      (Returns [], m_QoS (test_bridge True True))"
    by (simp add: test_qos_def test_bridge_def length_Write_header s_HeaderSize_def)
  from receive_routing[of "test_bridge True False" test_qos "Write_header 7 0 3 @ [1, 2, 3]"] neg
  have a: "PassNetworkPacket test_qos (test_bridge True False) (Write_header 7 0 3 @ [1, 2, 3]) =
     (Finished, [Write_header 7 0 3 @ [1, 2, 3]], test_bridge True False)" by blast
  from receive_routing[of "test_bridge False False" test_qos "Write_header 7 0 3 @ [1, 2, 3]"] chunked(1) push1
  have b: "PassNetworkPacket test_qos (test_bridge False False) (Write_header 7 0 3 @ [1, 2, 3]) =
     (Finished, [[1, 2, 3]], test_bridge False False)" by (simp add: test_bridge_def)
  from receive_routing[of "test_bridge True True" test_qos "Write_header 7 0 3"] chunked(2) push2
  have c: "PassNetworkPacket test_qos (test_bridge True True) (Write_header 7 0 3) =
     (Finished, [], test_bridge True True)" by (simp add: test_bridge_def)
  have push3: "PushReceivedChunk (test_qos\<lparr>PushReceivedChunk := \<lambda>q chunk. (Throws unknown_exception, q)\<rparr>)
      (m_QoS (test_bridge False False)) (Write_header 7 0 3) =
      (Throws unknown_exception, m_QoS (test_bridge False False))"
    by simp
  from receive_routing[of "test_bridge False False"
      "test_qos\<lparr>PushReceivedChunk := \<lambda>q chunk. (Throws unknown_exception, q)\<rparr>" "Write_header 7 0 3"]
    chunked(1) push3
  have d: "PassNetworkPacket (test_qos\<lparr>PushReceivedChunk := \<lambda>q chunk. (Throws unknown_exception, q)\<rparr>)
       (test_bridge False False) (Write_header 7 0 3) =
     (Raised (passed_on unknown_exception), [], test_bridge False False)"
    by (simp add: test_bridge_def)
  from a b c d show ?thesis by simp
qed

section \<open>The claim about construction\<close>

lemma Read_ByteVector_Write:
  assumes "length v < 2 ^ 32"
  shows "Read_ByteVector (Write_ByteVector v @ rest) = Inr (v, rest)"
  using assms
  by (simp add: Read_ByteVector_def Write_ByteVector_def length_Write_u32 Read_Write_u32 unat_of_nat)

lemma Read_ByteVector_Inr:
  assumes "Read_ByteVector view = Inr (v, rest)"
  shows "view = Write_ByteVector v @ rest \<and> length v < 2 ^ 32"
proof -
  let ?n = "unat (Read_u32 (take 4 view))"
  from assms have len: "4 \<le> length view" "?n \<le> length (drop 4 view)"
    and v: "v = take ?n (drop 4 view)" and rest: "rest = drop ?n (drop 4 view)"
    by (auto simp: Read_ByteVector_def Let_def split: if_splits)
  from len v have lv: "length v = ?n" by simp
  have "?n < 2 ^ 32" using unsigned_less[of "Read_u32 (take 4 view)", where 'a=nat] by simp
  moreover have "Write_u32 (of_nat (length v)) = take 4 view"
    using len Write_Read_u32[of "take 4 view"] by (simp add: lv)
  moreover have "view = take 4 view @ (v @ rest)"
    unfolding v rest by (simp only: append_take_drop_id)
  ultimately show ?thesis
    by (simp only: Write_ByteVector_def append_assoc lv simp_thms)
qed

lemma Read_ByteVector_Inl: "Read_ByteVector view = Inl e \<Longrightarrow> e = DecodeFailure"
  by (auto simp: Read_ByteVector_def Let_def split: if_splits)

text \<open>
  Claim C8 (constructor argument parsing). Constructed as a negotiation channel from a
  buffer that starts with two length-prefixed byte vectors, the bridge has the first as
  \<open>m_InputId\<close>, the second as \<open>m_OutpuId\<close> and the bytes after them, unchanged, as
  \<open>m_NonNegotiatiedArguments\<close>; from a buffer that does not start with two such vectors
  the construction fails with \<open>DecodeFailure\<close>. Constructed otherwise, the bridge has the
  three members empty whatever the buffer holds, which is not read. The length prefix
  is the codec's \<open>uint32_t\<close>, so the vectors are shorter than \<open>2 ^ 32\<close>.
\<close>
theorem constructor_argument_parsing:
  "(length inputId < 2 ^ 32 \<and> length outputId < 2 ^ 32 \<longrightarrow>
      DeviceBridge_ctor device did typeNameHash True isSlave
        (Write_ByteVector inputId @ Write_ByteVector outputId @ rest) qos =
      Inr \<lparr>m_Device = device, m_Did = did, m_TypeNameHash = typeNameHash,
            m_IsNegotiationChannel = True, m_IsSlave = isSlave, m_IsAlive = True,
            m_InputId = inputId, m_OutpuId = outputId, m_NonNegotiatiedArguments = rest,
            m_QoS = qos, m_Error = []\<rparr>) \<and>
   ((\<nexists>i out r. length i < 2 ^ 32 \<and> length out < 2 ^ 32 \<and>
         args = Write_ByteVector i @ Write_ByteVector out @ r) \<longrightarrow>
      DeviceBridge_ctor device did typeNameHash True isSlave args qos = Inl DecodeFailure) \<and>
   DeviceBridge_ctor device did typeNameHash False isSlave args qos =
      Inr \<lparr>m_Device = device, m_Did = did, m_TypeNameHash = typeNameHash,
            m_IsNegotiationChannel = False, m_IsSlave = isSlave, m_IsAlive = True,
            m_InputId = [], m_OutpuId = [], m_NonNegotiatiedArguments = [],
            m_QoS = qos, m_Error = []\<rparr>"
proof (intro conjI impI)
  assume "length inputId < 2 ^ 32 \<and> length outputId < 2 ^ 32"
  then show "DeviceBridge_ctor device did typeNameHash True isSlave
        (Write_ByteVector inputId @ Write_ByteVector outputId @ rest) qos =
      Inr \<lparr>m_Device = device, m_Did = did, m_TypeNameHash = typeNameHash,
            m_IsNegotiationChannel = True, m_IsSlave = isSlave, m_IsAlive = True,
            m_InputId = inputId, m_OutpuId = outputId, m_NonNegotiatiedArguments = rest,
            m_QoS = qos, m_Error = []\<rparr>"
    by (simp add: DeviceBridge_ctor_def Read_ByteVector_Write)
next
  assume mal: "\<nexists>i out r. length i < 2 ^ 32 \<and> length out < 2 ^ 32 \<and>
         args = Write_ByteVector i @ Write_ByteVector out @ r"
  show "DeviceBridge_ctor device did typeNameHash True isSlave args qos = Inl DecodeFailure"
  proof (cases "Read_ByteVector args")
    case (Inl e)
    with Read_ByteVector_Inl[OF Inl] show ?thesis by (simp add: DeviceBridge_ctor_def)
  next
    case (Inr p)
    obtain i view where p: "p = (i, view)" by (cases p)
    from Read_ByteVector_Inr[OF Inr[unfolded p]]
    have i: "args = Write_ByteVector i @ view" "length i < 2 ^ 32" by auto
    show ?thesis
    proof (cases "Read_ByteVector view")
      case (Inl e)
      with Read_ByteVector_Inl[OF Inl] Inr p show ?thesis by (simp add: DeviceBridge_ctor_def)
    next
      case inr2: (Inr q)
      obtain out r where q: "q = (out, r)" by (cases q)
      from Read_ByteVector_Inr[OF inr2[unfolded q]]
      have "view = Write_ByteVector out @ r" "length out < 2 ^ 32" by auto
      with i mal show ?thesis by blast
    qed
  qed
next
  show "DeviceBridge_ctor device did typeNameHash False isSlave args qos =
      Inr \<lparr>m_Device = device, m_Did = did, m_TypeNameHash = typeNameHash,
            m_IsNegotiationChannel = False, m_IsSlave = isSlave, m_IsAlive = True,
            m_InputId = [], m_OutpuId = [], m_NonNegotiatiedArguments = [],
            m_QoS = qos, m_Error = []\<rparr>"
    by (simp add: DeviceBridge_ctor_def)
qed

theorem constructor_argument_parsing_witness:
  "DeviceBridge_ctor (Some ()) 1 0 True False
     (Write_ByteVector [1, 2] @ Write_ByteVector [3] @ [4, 5]) \<lparr>m_OutgouingPacketId = 0, m_ReciveQueue = ()\<rparr> =
   Inr \<lparr>m_Device = Some (), m_Did = 1, m_TypeNameHash = 0,
         m_IsNegotiationChannel = True, m_IsSlave = False, m_IsAlive = True,
         m_InputId = [1, 2], m_OutpuId = [3], m_NonNegotiatiedArguments = [4, 5],
         m_QoS = \<lparr>m_OutgouingPacketId = 0, m_ReciveQueue = ()\<rparr>, m_Error = []\<rparr> \<and>
   DeviceBridge_ctor (Some ()) 1 0 True False [2, 0, 0, 0, 7]
     \<lparr>m_OutgouingPacketId = 0, m_ReciveQueue = ()\<rparr> = Inl DecodeFailure"
proof -
  have mal: "\<nexists>i out r. length i < 2 ^ 32 \<and> length out < 2 ^ 32 \<and>
         [2, 0, 0, 0, 7 :: byte] = Write_ByteVector i @ Write_ByteVector out @ r"
  proof
    assume "\<exists>i out r. length i < 2 ^ 32 \<and> length out < 2 ^ 32 \<and>
         [2, 0, 0, 0, 7 :: byte] = Write_ByteVector i @ Write_ByteVector out @ r"
    then obtain i out r where li: "length i < 2 ^ 32"
      and eq: "[2, 0, 0, 0, 7 :: byte] = Write_ByteVector i @ Write_ByteVector out @ r"
      by blast
    from Read_ByteVector_Write[OF li, of "Write_ByteVector out @ r"] eq
    have "Read_ByteVector [2, 0, 0, 0, 7] = Inr (i, Write_ByteVector out @ r)" by simp
    then show False
      by (simp add: Read_ByteVector_def Read_u32_def)
  qed
  have len: "length [1, 2 :: byte] < 2 ^ 32 \<and> length [3 :: byte] < 2 ^ 32" by simp
  from constructor_argument_parsing[of "[1, 2]" "[3]" "Some ()" 1 0 False "[4, 5]"
      "\<lparr>m_OutgouingPacketId = 0, m_ReciveQueue = ()\<rparr>" "[2, 0, 0, 0, 7]"] len mal
  show ?thesis by blast
qed

section \<open>The claim about the accessors\<close>

text \<open>
  Claim C10 (accessor and flag). \<open>IsNegotiationChannel()\<close> is true exactly when the
  bridge was constructed as a negotiation channel, it has a device, and the device
  reports \<open>IsChannel()\<close>; \<open>IsChannel()\<close> of the bridge is false, not a failure, when the
  device handle is null. So the accessor can be false while the flag is true.
\<close>
theorem accessor_vs_flag:
  "(IsNegotiationChannel ops b \<longleftrightarrow>
      m_IsNegotiationChannel b \<and> (\<exists>device. m_Device b = Some device \<and> IsChannel ops device)) \<and>
   (DeviceBridge_IsChannel ops b \<longleftrightarrow> (\<exists>device. m_Device b = Some device \<and> IsChannel ops device)) \<and>
   (m_Device b = None \<longrightarrow> \<not> DeviceBridge_IsChannel ops b \<and> \<not> IsNegotiationChannel ops b)"
  by (auto simp: IsNegotiationChannel_def DeviceBridge_IsChannel_def split: option.splits)

theorem accessor_vs_flag_witness:
  "m_IsNegotiationChannel ((test_bridge True False)\<lparr>m_Device := None\<rparr>) \<and>
   \<not> IsNegotiationChannel (test_device (\<lambda>frame. 0) (Returns ())) ((test_bridge True False)\<lparr>m_Device := None\<rparr>) \<and>
   IsNegotiationChannel (test_device (\<lambda>frame. 0) (Returns ())) (test_bridge True False)"
  using accessor_vs_flag[of "test_device (\<lambda>frame. 0) (Returns ())" "(test_bridge True False)\<lparr>m_Device := None\<rparr>"]
    accessor_vs_flag[of "test_device (\<lambda>frame. 0) (Returns ())" "test_bridge True False"]
  by (simp add: test_bridge_def test_device_def)

section \<open>The claim about the receive worker\<close>

lemma on_receive_calls_append:
  "on_receive_calls (xs @ ys) = on_receive_calls xs + on_receive_calls ys"
  by (induction xs) (simp_all add: on_receive_calls_def)

lemma on_receive_calls_simps:
  "on_receive_calls [] = 0"
  "on_receive_calls [Slept n, OnReceiveCalled] = 1"
  "on_receive_calls [Log b m s] = 0"
  by (simp_all add: on_receive_calls_def Log_def)

lemma worker_step_detached:
  assumes "\<not> m_IsAlive (bridge w)"
  shows "\<not> m_IsAlive (bridge (worker_step ops w))"
    and "on_receive_calls (events (worker_step ops w)) + pending_calls (pc (worker_step ops w))
           = on_receive_calls (events w) + pending_calls (pc w)"
    and "steps_to_end (pc (worker_step ops w)) \<le> steps_to_end (pc w) - 1"
  using assms
  by (auto simp: worker_step_def pending_calls_def steps_to_end_def on_receive_calls_append
      on_receive_calls_simps split: pc.splits option.splits prod.splits reply.splits)

lemma step_detached:
  assumes "\<not> m_IsAlive (bridge w)"
  shows "\<not> m_IsAlive (bridge (step ops a w))"
    and "on_receive_calls (events (step ops a w)) + pending_calls (pc (step ops a w))
           = on_receive_calls (events w) + pending_calls (pc w)"
    and "steps_to_end (pc (step ops a w)) \<le> steps_to_end (pc w) - (if a = WorkerStep then 1 else 0)"
  using worker_step_detached[OF assms, of ops] assms
  by (cases a; simp add: step_def Detach_def)+

lemma run_detached:
  "\<not> m_IsAlive (bridge w) \<Longrightarrow>
     \<not> m_IsAlive (bridge (run ops sched w)) \<and>
     on_receive_calls (events (run ops sched w)) + pending_calls (pc (run ops sched w))
       = on_receive_calls (events w) + pending_calls (pc w) \<and>
     steps_to_end (pc (run ops sched w)) \<le> steps_to_end (pc w) - count_list sched WorkerStep"
proof (induction sched arbitrary: w)
  case Nil
  then show ?case by simp
next
  case (Cons a sched)
  from step_detached[OF Cons.prems, of ops a] Cons.IH[of "step ops a w"]
  show ?case by (cases a) auto
qed

lemma worker_step_events_mono:
  "on_receive_calls (events w) \<le> on_receive_calls (events (worker_step ops w))"
  by (auto simp: worker_step_def on_receive_calls_append
      split: pc.splits option.splits prod.splits reply.splits)

lemma run_events_mono:
  "on_receive_calls (events w) \<le> on_receive_calls (events (run ops sched w))"
proof (induction sched arbitrary: w)
  case Nil
  then show ?case by simp
next
  case (Cons a sched)
  have "on_receive_calls (events w) \<le> on_receive_calls (events (step ops a w))"
    using worker_step_events_mono[of w ops] by (cases a) (simp_all add: step_def)
  with Cons.IH[of "step ops a w"] show ?case by simp
qed

lemma steps_to_end_0: "steps_to_end p = 0 \<longleftrightarrow> ended p"
  by (cases p) (simp_all add: steps_to_end_def ended_def)

lemma steps_to_end_le: "steps_to_end p \<le> 3"
  by (cases p) (simp_all add: steps_to_end_def)

lemma worker_iteration:
  assumes "pc w = AtLoopTest" and "m_IsAlive (bridge w)" and "m_Device (bridge w) = Some d"
    and "GetUpdateDelay ops d = (Returns delay, d1)" and "OnReceive ops d1 = (r, d2)"
  shows "run ops [WorkerStep, WorkerStep, WorkerStep] w =
           w\<lparr>bridge := (bridge w)\<lparr>m_Device := Some d2\<rparr>, pc := AtLoopTest,
             events := events w @ [Slept delay, OnReceiveCalled] @
               (case r of Returns u \<Rightarrow> []
                | Throws e \<Rightarrow> [Logged (caught_message e) Error (m_Did (bridge w))])\<rparr>"
  using assms
  by (cases r) (simp_all add: step_def worker_step_def Log_def)

text \<open>
  Claim C7 (worker loop), as amended. An iteration that starts at the loop test with
  \<open>m_IsAlive\<close> true sleeps for the delay of the device, then calls \<open>OnReceive\<close>; if that
  throws, the exception is caught and logged with severity \<open>Error\<close> and the device id;
  in either case the worker is back at the loop test. When the test reads \<open>m_IsAlive\<close>
  false the worker exits. Once \<open>m_IsAlive\<close> is false it stays false under every
  schedule, the worker has ended after three of its steps at most, and it makes no
  further call of \<open>OnReceive\<close> unless \<open>Detach\<close> came while it was asleep: then it makes
  at most the one call of the iteration under way, and makes it at its next step,
  as a sleep is always followed by the call. The theorem also gives the single steps:
  the other call inside the \<open>try\<close> block, \<open>GetUpdateDelay\<close>, is covered in the same way
  (when it throws, the exception is logged and the worker is back at the loop test),
  and the step that ends \<open>OnReceive\<close> does not depend on \<open>m_IsAlive\<close>.
\<close>
theorem worker_loop:
  "(pc w = AtLoopTest \<and> m_IsAlive (bridge w) \<and> m_Device (bridge w) = Some d \<and>
    GetUpdateDelay ops d = (Returns delay, d1) \<and> OnReceive ops d1 = (r, d2) \<longrightarrow>
      run ops [WorkerStep, WorkerStep, WorkerStep] w =
        w\<lparr>bridge := (bridge w)\<lparr>m_Device := Some d2\<rparr>, pc := AtLoopTest,
          events := events w @ [Slept delay, OnReceiveCalled] @
            (case r of Returns u \<Rightarrow> []
             | Throws e \<Rightarrow> [Logged (caught_message e) Error (m_Did (bridge w))])\<rparr>) \<and>
   (pc w = AtLoopTest \<and> m_IsAlive (bridge w) \<and> m_Device (bridge w) = Some d \<and>
    GetUpdateDelay ops d = (Throws e, d1) \<longrightarrow>
      worker_step ops w =
        w\<lparr>bridge := (bridge w)\<lparr>m_Device := Some d1\<rparr>, pc := AtLoopTest,
          events := events w @ [Logged (caught_message e) Error (m_Did (bridge w))]\<rparr>) \<and>
   (pc w = Sleeping delay \<longrightarrow>
      worker_step ops w = w\<lparr>pc := InOnReceive, events := events w @ [Slept delay, OnReceiveCalled]\<rparr>) \<and>
   (pc w = InOnReceive \<and> m_Device (bridge w) = Some d \<and> OnReceive ops d = (r, d2) \<longrightarrow>
      worker_step ops w =
        w\<lparr>bridge := (bridge w)\<lparr>m_Device := Some d2\<rparr>, pc := AtLoopTest,
          events := events w @
            (case r of Returns u \<Rightarrow> []
             | Throws e \<Rightarrow> [Logged (caught_message e) Error (m_Did (bridge w))])\<rparr>) \<and>
   (pc w = AtLoopTest \<and> \<not> m_IsAlive (bridge w) \<longrightarrow> worker_step ops w = w\<lparr>pc := ThreadExited\<rparr>) \<and>
   (\<not> m_IsAlive (bridge w) \<longrightarrow>
      \<not> m_IsAlive (bridge (run ops sched w)) \<and>
      on_receive_calls (events w) \<le> on_receive_calls (events (run ops sched w)) \<and>
      on_receive_calls (events (run ops sched w)) \<le>
        on_receive_calls (events w) + (case pc w of Sleeping n \<Rightarrow> 1 | _ \<Rightarrow> 0) \<and>
      (3 \<le> count_list sched WorkerStep \<longrightarrow> ended (pc (run ops sched w))))"
proof (intro conjI impI)
  assume "pc w = AtLoopTest \<and> m_IsAlive (bridge w) \<and> m_Device (bridge w) = Some d \<and>
    GetUpdateDelay ops d = (Returns delay, d1) \<and> OnReceive ops d1 = (r, d2)"
  then show "run ops [WorkerStep, WorkerStep, WorkerStep] w =
        w\<lparr>bridge := (bridge w)\<lparr>m_Device := Some d2\<rparr>, pc := AtLoopTest,
          events := events w @ [Slept delay, OnReceiveCalled] @
            (case r of Returns u \<Rightarrow> []
             | Throws e \<Rightarrow> [Logged (caught_message e) Error (m_Did (bridge w))])\<rparr>"
    by (elim conjE) (rule worker_iteration)
next
  assume "pc w = AtLoopTest \<and> m_IsAlive (bridge w) \<and> m_Device (bridge w) = Some d \<and>
    GetUpdateDelay ops d = (Throws e, d1)"
  then show "worker_step ops w =
        w\<lparr>bridge := (bridge w)\<lparr>m_Device := Some d1\<rparr>, pc := AtLoopTest,
          events := events w @ [Logged (caught_message e) Error (m_Did (bridge w))]\<rparr>"
    by (simp add: worker_step_def Log_def)
next
  assume "pc w = Sleeping delay"
  then show "worker_step ops w =
      w\<lparr>pc := InOnReceive, events := events w @ [Slept delay, OnReceiveCalled]\<rparr>"
    by (simp add: worker_step_def)
next
  assume "pc w = InOnReceive \<and> m_Device (bridge w) = Some d \<and> OnReceive ops d = (r, d2)"
  then show "worker_step ops w =
        w\<lparr>bridge := (bridge w)\<lparr>m_Device := Some d2\<rparr>, pc := AtLoopTest,
          events := events w @
            (case r of Returns u \<Rightarrow> []
             | Throws e \<Rightarrow> [Logged (caught_message e) Error (m_Did (bridge w))])\<rparr>"
    by (cases r) (simp_all add: worker_step_def Log_def)
next
  assume "pc w = AtLoopTest \<and> \<not> m_IsAlive (bridge w)"
  then show "worker_step ops w = w\<lparr>pc := ThreadExited\<rparr>"
    by (simp add: worker_step_def)
next
  assume d: "\<not> m_IsAlive (bridge w)"
  note r = run_detached[OF d, of ops sched]
  from r show "\<not> m_IsAlive (bridge (run ops sched w))" by simp
  show "on_receive_calls (events w) \<le> on_receive_calls (events (run ops sched w))"
    by (rule run_events_mono)
  from r have "on_receive_calls (events (run ops sched w)) \<le> on_receive_calls (events w) + pending_calls (pc w)"
    by linarith
  then show "on_receive_calls (events (run ops sched w)) \<le>
        on_receive_calls (events w) + (case pc w of Sleeping n \<Rightarrow> 1 | _ \<Rightarrow> 0)"
    by (simp add: pending_calls_def)
  assume "3 \<le> count_list sched WorkerStep"
  with r steps_to_end_le[of "pc w"] have "steps_to_end (pc (run ops sched w)) = 0" by simp
  then show "ended (pc (run ops sched w))" by (simp add: steps_to_end_0)
qed

theorem worker_loop_witness:
  "run (test_device (\<lambda>frame. 0) (Throws (std_exception ''boom''))) [WorkerStep, WorkerStep, WorkerStep]
     (StartUpdatingInSeparateThread (test_bridge False False)) =
   \<lparr>bridge = test_bridge False False, pc = AtLoopTest,
      events = [Slept 5, OnReceiveCalled, Logged ''std::exception while updating: boom'' Error 1]\<rparr> \<and>
   worker_step ((test_device (\<lambda>frame. 0) (Returns ()))\<lparr>GetUpdateDelay := \<lambda>d. (Throws unknown_exception, d)\<rparr>)
        (StartUpdatingInSeparateThread (test_bridge False False)) =
   \<lparr>bridge = test_bridge False False, pc = AtLoopTest,
      events = [Logged ''Unknown exception while updating.'' Error 1]\<rparr> \<and>
   worker_step (test_device (\<lambda>frame. 0) (Returns ()))
        (run (test_device (\<lambda>frame. 0) (Returns ())) [WorkerStep, DetachCall]
          (StartUpdatingInSeparateThread (test_bridge False False))) =
   \<lparr>bridge = (test_bridge False False)\<lparr>m_IsAlive := False\<rparr>, pc = InOnReceive,
      events = [Slept 5, OnReceiveCalled]\<rparr> \<and>
   worker_step (test_device (\<lambda>frame. 0) (Returns ()))
        (run (test_device (\<lambda>frame. 0) (Returns ())) [WorkerStep, WorkerStep, DetachCall]
          (StartUpdatingInSeparateThread (test_bridge False False))) =
   \<lparr>bridge = (test_bridge False False)\<lparr>m_IsAlive := False\<rparr>, pc = AtLoopTest,
      events = [Slept 5, OnReceiveCalled]\<rparr> \<and>
   pc (worker_step (test_device (\<lambda>frame. 0) (Returns ()))
        (run (test_device (\<lambda>frame. 0) (Returns ())) [DetachCall]
          (StartUpdatingInSeparateThread (test_bridge False False)))) = ThreadExited \<and>
   \<not> m_IsAlive (bridge (run (test_device (\<lambda>frame. 0) (Returns ())) [WorkerStep, WorkerStep, DetachCall]
        (StartUpdatingInSeparateThread (test_bridge False False)))) \<and>
   on_receive_calls (events (run (test_device (\<lambda>frame. 0) (Returns ())) [WorkerStep, WorkerStep, DetachCall]
        (StartUpdatingInSeparateThread (test_bridge False False)))) = 1 \<and>
   on_receive_calls (events (run (test_device (\<lambda>frame. 0) (Returns ())) [WorkerStep, WorkerStep, WorkerStep]
      (run (test_device (\<lambda>frame. 0) (Returns ())) [WorkerStep, WorkerStep, DetachCall]
        (StartUpdatingInSeparateThread (test_bridge False False))))) = 1 \<and>
   ended (pc (run (test_device (\<lambda>frame. 0) (Returns ())) [WorkerStep, WorkerStep, WorkerStep]
      (run (test_device (\<lambda>frame. 0) (Returns ())) [WorkerStep, WorkerStep, DetachCall]
        (StartUpdatingInSeparateThread (test_bridge False False)))))"
proof -
  let ?thrower = "test_device (\<lambda>frame. 0) (Throws (std_exception ''boom''))"
  let ?dev = "test_device (\<lambda>frame. 0) (Returns ())"
  let ?nodelay = "(test_device (\<lambda>frame. 0) (Returns ()))\<lparr>GetUpdateDelay := \<lambda>d. (Throws unknown_exception, d)\<rparr>"
  let ?w0 = "StartUpdatingInSeparateThread (test_bridge False False)"
  let ?ws = "run ?dev [WorkerStep, DetachCall] ?w0"
  let ?w1 = "run ?dev [WorkerStep, WorkerStep, DetachCall] ?w0"
  let ?w2 = "run ?dev [DetachCall] ?w0"
  have pre: "pc ?w0 = AtLoopTest \<and> m_IsAlive (bridge ?w0) \<and> m_Device (bridge ?w0) = Some () \<and>
    GetUpdateDelay ?thrower () = (Returns 5, ()) \<and> OnReceive ?thrower () = (Throws (std_exception ''boom''), ())"
    by (simp add: StartUpdatingInSeparateThread_def test_bridge_def test_device_def)
  note worker_loop[where w = ?w0 and ops = ?thrower and d = "()" and delay = 5 and ?d1.0 = "()"
      and r = "Throws (std_exception ''boom'')" and ?d2.0 = "()", THEN conjunct1, THEN mp, OF pre]
  then have a: "run ?thrower [WorkerStep, WorkerStep, WorkerStep] ?w0 =
   \<lparr>bridge = test_bridge False False, pc = AtLoopTest,
      events = [Slept 5, OnReceiveCalled, Logged ''std::exception while updating: boom'' Error 1]\<rparr>"
    by (simp add: StartUpdatingInSeparateThread_def test_bridge_def)
  have pre': "pc ?w0 = AtLoopTest \<and> m_IsAlive (bridge ?w0) \<and> m_Device (bridge ?w0) = Some () \<and>
    GetUpdateDelay ?nodelay () = (Throws unknown_exception, ())"
    by (simp add: StartUpdatingInSeparateThread_def test_bridge_def)
  note worker_loop[where w = ?w0 and ops = ?nodelay and d = "()" and e = unknown_exception
      and ?d1.0 = "()", THEN conjunct2, THEN conjunct1, THEN mp, OF pre']
  then have b: "worker_step ?nodelay ?w0 =
   \<lparr>bridge = test_bridge False False, pc = AtLoopTest,
      events = [Logged ''Unknown exception while updating.'' Error 1]\<rparr>"
    by (simp add: StartUpdatingInSeparateThread_def test_bridge_def)
  have ws: "?ws = \<lparr>bridge = (test_bridge False False)\<lparr>m_IsAlive := False\<rparr>, pc = Sleeping 5,
      events = []\<rparr>"
    by (simp add: StartUpdatingInSeparateThread_def test_bridge_def test_device_def step_def
        worker_step_def Detach_def)
  then have asleep: "pc ?ws = Sleeping 5" by (simp only: worker.simps)
  note worker_loop[where w = ?ws and ops = ?dev and delay = 5, THEN conjunct2, THEN conjunct2,
      THEN conjunct1, THEN mp, OF asleep]
  then have c: "worker_step ?dev ?ws =
   \<lparr>bridge = (test_bridge False False)\<lparr>m_IsAlive := False\<rparr>, pc = InOnReceive,
      events = [Slept 5, OnReceiveCalled]\<rparr>"
    unfolding ws by simp
  have w1: "?w1 = \<lparr>bridge = (test_bridge False False)\<lparr>m_IsAlive := False\<rparr>, pc = InOnReceive,
      events = [Slept 5, OnReceiveCalled]\<rparr>"
    by (simp add: StartUpdatingInSeparateThread_def test_bridge_def test_device_def step_def
        worker_step_def Detach_def)
  have dead: "\<not> m_IsAlive (bridge ?w1)" and calls: "on_receive_calls (events ?w1) = 1"
    and at: "pc ?w1 = InOnReceive"
    unfolding w1 by (simp_all add: on_receive_calls_def)
  have inside: "pc ?w1 = InOnReceive \<and> m_Device (bridge ?w1) = Some () \<and>
      OnReceive ?dev () = (Returns (), ())"
    unfolding w1 by (simp add: test_bridge_def test_device_def)
  note worker_loop[where w = ?w1 and ops = ?dev and d = "()" and r = "Returns ()" and ?d2.0 = "()",
      THEN conjunct2, THEN conjunct2, THEN conjunct2, THEN conjunct1, THEN mp, OF inside]
  then have d: "worker_step ?dev ?w1 =
   \<lparr>bridge = (test_bridge False False)\<lparr>m_IsAlive := False\<rparr>, pc = AtLoopTest,
      events = [Slept 5, OnReceiveCalled]\<rparr>"
    unfolding w1 by (simp add: test_bridge_def)
  have at_test: "pc ?w2 = AtLoopTest \<and> \<not> m_IsAlive (bridge ?w2)"
    by (simp add: StartUpdatingInSeparateThread_def test_bridge_def step_def Detach_def)
  note worker_loop[where w = ?w2 and ops = ?dev, THEN conjunct2, THEN conjunct2, THEN conjunct2,
      THEN conjunct2, THEN conjunct1, THEN mp, OF at_test]
  then have e: "pc (worker_step ?dev ?w2) = ThreadExited" by simp
  have three: "3 \<le> count_list [WorkerStep, WorkerStep, WorkerStep] WorkerStep" by simp
  note after = worker_loop[where w = ?w1 and ops = ?dev and sched = "[WorkerStep, WorkerStep, WorkerStep]",
      THEN conjunct2, THEN conjunct2, THEN conjunct2, THEN conjunct2, THEN conjunct2, THEN mp, OF dead]
  have f: "on_receive_calls (events ?w1) \<le> on_receive_calls (events (run ?dev [WorkerStep, WorkerStep, WorkerStep] ?w1))"
    "on_receive_calls (events (run ?dev [WorkerStep, WorkerStep, WorkerStep] ?w1)) \<le>
        on_receive_calls (events ?w1) + (case pc ?w1 of Sleeping n \<Rightarrow> 1 | _ \<Rightarrow> 0)"
    "ended (pc (run ?dev [WorkerStep, WorkerStep, WorkerStep] ?w1))"
    using after three by (simp_all only: simp_thms)
  from f(1,2) have g: "on_receive_calls (events (run ?dev [WorkerStep, WorkerStep, WorkerStep] ?w1)) = 1"
    unfolding at calls by simp
  from a b c d e dead calls g f(3) show ?thesis by blast
qed

text \<open>
  Claim C7 as stated fails: the flag is only read at the loop test. When \<open>Detach\<close> is
  called while the worker sleeps, \<open>m_IsAlive\<close> is false and no call of \<open>OnReceive\<close> has
  been made, yet the worker's next step makes one.
\<close>
theorem worker_loop_counterexample:
  "\<not> m_IsAlive (bridge (run (test_device (\<lambda>frame. 0) (Returns ())) [WorkerStep, DetachCall]
        (StartUpdatingInSeparateThread (test_bridge False False)))) \<and>
   on_receive_calls (events (run (test_device (\<lambda>frame. 0) (Returns ())) [WorkerStep, DetachCall]
        (StartUpdatingInSeparateThread (test_bridge False False)))) = 0 \<and>
   on_receive_calls (events (run (test_device (\<lambda>frame. 0) (Returns ())) [WorkerStep, DetachCall, WorkerStep]
        (StartUpdatingInSeparateThread (test_bridge False False)))) = 1"
  by (simp add: StartUpdatingInSeparateThread_def test_bridge_def test_device_def step_def
      worker_step_def Detach_def on_receive_calls_def)

end
